theory Spec2Isabelle
  imports Complex_Main
begin

section \<open>Random Fourier features for MNIST: the notebook as functions\<close>

text \<open>
  The repository is one notebook, \<^verbatim>\<open>random_fourier_features.ipynb\<close>. Its code cells
  define two functions (\<^verbatim>\<open>s\<close> and \<^verbatim>\<open>one_hot\<close>) and then compute, cell by cell, the
  batch \<^verbatim>\<open>X, Y\<close>, the random basis \<^verbatim>\<open>w\<close>, the feature matrices \<^verbatim>\<open>S, S_test\<close>, the
  weights \<^verbatim>\<open>Theta\<close> and the two accuracies \<^verbatim>\<open>train_pred, test_pred\<close>.

  Numbers: numpy's float64 and complex128 are modelled by the exact types
  \<^typ>\<open>real\<close> and \<^typ>\<open>complex\<close>; rounding, overflow and nan are not modelled. The
  claims proved below are about the order of the operations, shapes, indices, comparisons
  and errors, which rounding does not change. Statements that hold of the exact
  arithmetic only (the value of the inverse, the normal equations) are kept apart, in
  the last section, and nothing else rests on them. Every numpy exception is a value of
  \<open>error\<close>, and the one float operation that yields a non-number instead of raising
  (division by a zero batch size) has its own result type.
\<close>

subsection \<open>Arrays\<close>

datatype error = IndexError | ValueError | LinAlgError

definition and_then :: "error + 'a \<Rightarrow> ('a \<Rightarrow> error + 'b) \<Rightarrow> error + 'b" where
  "and_then m f = (case m of Inl e \<Rightarrow> Inl e | Inr x \<Rightarrow> f x)"

text \<open>
  A two-dimensional array: the column count and the rows. The column count is kept
  because an array with no rows still has one (shape \<open>(0, c)\<close>).
\<close>

datatype 'a mat = Mat (ncols: nat) (rows: "'a list list")

definition nrows :: "'a mat \<Rightarrow> nat" where
  "nrows A = length (rows A)"

definition entry :: "'a mat \<Rightarrow> nat \<Rightarrow> nat \<Rightarrow> 'a" where
  "entry A i j = rows A ! i ! j"

text \<open>Every row has the array's column count: the arrays numpy can build.\<close>

definition wf_mat :: "'a mat \<Rightarrow> bool" where
  "wf_mat A = list_all (\<lambda>r. length r = ncols A) (rows A)"

definition mk_mat :: "nat \<Rightarrow> nat \<Rightarrow> (nat \<Rightarrow> nat \<Rightarrow> 'a) \<Rightarrow> 'a mat" where
  "mk_mat r c f = Mat c (map (\<lambda>i. map (f i) [0..<c]) [0..<r])"

text \<open>
  An array whose number of axes is known only at run time: \<^verbatim>\<open>np.squeeze\<close> in
  \<^verbatim>\<open>one_hot\<close> returns a 0-, 1- or 2-dimensional array depending on its input.
\<close>

datatype 'a ndarray = Scalar 'a | Vector "'a list" | Matrix "'a mat"

fun shape :: "'a ndarray \<Rightarrow> nat list" where
  "shape (Scalar x) = []"
| "shape (Vector v) = [length v]"
| "shape (Matrix A) = [nrows A, ncols A]"

text \<open>\<^verbatim>\<open>a.reshape(-1)\<close>: the elements in row-major order, as a 1-d array.\<close>

fun reshape_flat :: "'a ndarray \<Rightarrow> 'a list" where
  "reshape_flat (Scalar x) = [x]"
| "reshape_flat (Vector v) = v"
| "reshape_flat (Matrix A) = concat (rows A)"

text \<open>
  The images as \<^verbatim>\<open>mnist.load_data()\<close> returns them: a 3-d array of shape
  \<open>(count, height, width)\<close>, kept as one row-major list of pixels per image.
  \<^verbatim>\<open>a.reshape(r, c)\<close> keeps the elements in row-major order and raises ValueError unless
  \<open>r * c\<close> is the size of the array.
\<close>

datatype 'a images = Images (height: nat) (width: nat) (pixels: "'a list list")

definition np_reshape :: "'a images \<Rightarrow> nat \<Rightarrow> nat \<Rightarrow> error + 'a mat" where
  "np_reshape a r c =
     (if length (pixels a) * (height a * width a) \<noteq> r * c then Inl ValueError
      else Inr (mk_mat r c (\<lambda>i j. concat (pixels a) ! (i * c + j))))"

text \<open>\<^verbatim>\<open>np.eye(n)\<close> and \<^verbatim>\<open>np.identity(n)\<close>.\<close>

definition np_eye :: "nat \<Rightarrow> ('a::zero_neq_one) mat" where
  "np_eye n = mk_mat n n (\<lambda>i j. if i = j then 1 else 0)"

text \<open>
  \<^verbatim>\<open>A[idx]\<close> with a 1-d integer array \<^verbatim>\<open>idx\<close>: the rows picked in order. A negative
  index counts from the end; an index outside \<open>[-n, n)\<close> raises IndexError.
\<close>

definition take_rows :: "'a mat \<Rightarrow> int list \<Rightarrow> error + 'a mat" where
  "take_rows A idx =
     (if list_all (\<lambda>i. - int (nrows A) \<le> i \<and> i < int (nrows A)) idx
      then Inr (Mat (ncols A) (map (\<lambda>i. rows A ! nat (i mod int (nrows A))) idx))
      else Inl IndexError)"

text \<open>\<^verbatim>\<open>np.squeeze\<close>: every axis of length one is removed.\<close>

fun np_squeeze :: "'a ndarray \<Rightarrow> 'a ndarray" where
  "np_squeeze (Scalar x) = Scalar x"
| "np_squeeze (Vector v) = (if length v = 1 then Scalar (v ! 0) else Vector v)"
| "np_squeeze (Matrix A) =
     (if nrows A = 1 \<and> ncols A = 1 then Scalar (entry A 0 0)
      else if nrows A = 1 then Vector (rows A ! 0)
      else if ncols A = 1 then Vector (map (\<lambda>r. r ! 0) (rows A))
      else Matrix A)"

text \<open>\<^verbatim>\<open>a[0:J]\<close> for a non-negative \<^verbatim>\<open>J\<close>: a 0-d array cannot be indexed.\<close>

definition slice_rows :: "'a mat \<Rightarrow> nat \<Rightarrow> 'a mat" where
  "slice_rows A n = Mat (ncols A) (take n (rows A))"

fun slice0 :: "'a ndarray \<Rightarrow> nat \<Rightarrow> error + 'a ndarray" where
  "slice0 (Scalar x) n = Inl IndexError"
| "slice0 (Vector v) n = Inr (Vector (take n v))"
| "slice0 (Matrix A) n = Inr (Matrix (slice_rows A n))"

text \<open>\<^verbatim>\<open>.T\<close>: the axes reversed, so nothing changes below two dimensions.\<close>

definition np_T :: "'a mat \<Rightarrow> 'a mat" where
  "np_T A = mk_mat (ncols A) (nrows A) (\<lambda>i j. entry A j i)"

fun np_T_nd :: "'a ndarray \<Rightarrow> 'a ndarray" where
  "np_T_nd (Scalar x) = Scalar x"
| "np_T_nd (Vector v) = Vector v"
| "np_T_nd (Matrix A) = Matrix (np_T A)"

definition mat_map :: "('a \<Rightarrow> 'b) \<Rightarrow> 'a mat \<Rightarrow> 'b mat" where
  "mat_map f A = Mat (ncols A) (map (map f) (rows A))"

fun map_nd :: "('a \<Rightarrow> 'b) \<Rightarrow> 'a ndarray \<Rightarrow> 'b ndarray" where
  "map_nd f (Scalar x) = Scalar (f x)"
| "map_nd f (Vector v) = Vector (map f v)"
| "map_nd f (Matrix A) = Matrix (mat_map f A)"

text \<open>
  The matrix product of two 2-d arrays, which \<^verbatim>\<open>np.dot\<close> and \<^verbatim>\<open>@\<close> share: the inner
  dimensions must agree.
\<close>

definition mat_mul :: "('a::semiring_0) mat \<Rightarrow> 'a mat \<Rightarrow> error + 'a mat" where
  "mat_mul A B =
     (if ncols A \<noteq> nrows B then Inl ValueError
      else Inr (mk_mat (nrows A) (ncols B) (\<lambda>i j. \<Sum>k<ncols A. entry A i k * entry B k j)))"

text \<open>
  \<^verbatim>\<open>a @ B\<close> with a 2-d right operand: a 0-d left operand is refused, a 1-d one is
  used as a row and the result is 1-d.
\<close>

fun matmul :: "('a::semiring_0) ndarray \<Rightarrow> 'a mat \<Rightarrow> error + 'a ndarray" where
  "matmul (Scalar x) B = Inl ValueError"
| "matmul (Vector v) B =
     (if length v \<noteq> nrows B then Inl ValueError
      else Inr (Vector (map (\<lambda>j. \<Sum>k<length v. v ! k * entry B k j) [0..<ncols B])))"
| "matmul (Matrix A) B = and_then (mat_mul A B) (\<lambda>C. Inr (Matrix C))"

text \<open>
  \<^verbatim>\<open>A + B\<close> on 2-d arrays, with numpy's broadcasting: along each axis the lengths are
  equal or one of them is 1, and the array of length 1 is repeated.
\<close>

definition bdim :: "nat \<Rightarrow> nat \<Rightarrow> nat option" where
  "bdim a b = (if a = b then Some a else if a = 1 then Some b else if b = 1 then Some a else None)"

definition np_add :: "('a::plus) mat \<Rightarrow> 'a mat \<Rightarrow> error + 'a mat" where
  "np_add A B =
     (case (bdim (nrows A) (nrows B), bdim (ncols A) (ncols B)) of
        (Some r, Some c) \<Rightarrow>
          Inr (mk_mat r c (\<lambda>i j.
                 entry A (if nrows A = 1 then 0 else i) (if ncols A = 1 then 0 else j)
               + entry B (if nrows B = 1 then 0 else i) (if ncols B = 1 then 0 else j)))
      | _ \<Rightarrow> Inl ValueError)"

subsection \<open>\<^verbatim>\<open>np.linalg.inv\<close>\<close>

text \<open>
  numpy hands the inversion to LAPACK. In exact arithmetic every elimination scheme
  returns the same matrix, so the model is Gauss-Jordan elimination on the rows of
  \<open>[A | I]\<close>: for each column in turn, the first row at or below the diagonal with a
  non-zero entry is swapped up and scaled, and the column is cleared in every other
  row. A column with no such row means the matrix is singular: LinAlgError, as for an
  array that is not square.
\<close>

definition augment :: "('a::zero_neq_one) mat \<Rightarrow> 'a list list" where
  "augment A = map (\<lambda>i. rows A ! i @ map (\<lambda>j. if i = j then 1 else 0) [0..<ncols A]) [0..<nrows A]"

definition pivot_row :: "nat \<Rightarrow> ('a::zero) list list \<Rightarrow> nat option" where
  "pivot_row k rs = find (\<lambda>p. rs ! p ! k \<noteq> 0) [k..<length rs]"

definition eliminate :: "nat \<Rightarrow> nat \<Rightarrow> ('a::field) list list \<Rightarrow> 'a list list" where
  "eliminate k p rs =
     (let sw = rs[k := rs ! p, p := rs ! k];
          piv = map (\<lambda>x. x / (sw ! k ! k)) (sw ! k)
      in map (\<lambda>i. if i = k then piv
                  else map2 (\<lambda>a b. a - sw ! i ! k * b) (sw ! i) piv) [0..<length rs])"

fun gauss_jordan :: "nat \<Rightarrow> nat \<Rightarrow> ('a::field) list list \<Rightarrow> 'a list list option" where
  "gauss_jordan 0 k rs = Some rs"
| "gauss_jordan (Suc m) k rs =
     (case pivot_row k rs of
        None \<Rightarrow> None
      | Some p \<Rightarrow> gauss_jordan m (Suc k) (eliminate k p rs))"

definition np_linalg_inv :: "('a::field) mat \<Rightarrow> error + 'a mat" where
  "np_linalg_inv A =
     (if nrows A \<noteq> ncols A then Inl LinAlgError
      else case gauss_jordan (ncols A) 0 (augment A) of
             None \<Rightarrow> Inl LinAlgError
           | Some rs \<Rightarrow> Inr (Mat (ncols A) (map (drop (ncols A)) rs)))"

subsection \<open>The notebook's functions and cells\<close>

text \<open>\<^verbatim>\<open>def s(x): return np.exp(1j*x)\<close>\<close>

definition s :: "real \<Rightarrow> complex" where
  "s x = exp (\<i> * complex_of_real x)"

text \<open>\<^verbatim>\<open>def one_hot(a, num_classes): return np.squeeze(np.eye(num_classes)[a.reshape(-1)])\<close>\<close>

definition one_hot :: "int ndarray \<Rightarrow> nat \<Rightarrow> error + real ndarray" where
  "one_hot a num_classes =
     and_then (take_rows (np_eye num_classes) (reshape_flat a))
       (\<lambda>R. Inr (np_squeeze (Matrix R)))"

text \<open>\<^verbatim>\<open>S = s(np.dot(X, w)).T\<close>, and the same line for \<^verbatim>\<open>S_test\<close>.\<close>

definition feature_matrix :: "real mat \<Rightarrow> real mat \<Rightarrow> error + complex mat" where
  "feature_matrix X w = and_then (mat_mul X w) (\<lambda>P. Inr (np_T (mat_map s P)))"

text \<open>
  \<^verbatim>\<open>Theta = (Y @ S.conj().T) @ np.linalg.inv(S @ S.conj().T + reg_param*np.identity(K))\<close>.
  Python evaluates the left operand of the outer product first. \<^verbatim>\<open>Y\<close> is real and is
  promoted to complex by the product.
\<close>

definition conj_T :: "complex mat \<Rightarrow> complex mat" where
  "conj_T A = np_T (mat_map cnj A)"

definition solve_Theta :: "real ndarray \<Rightarrow> complex mat \<Rightarrow> real \<Rightarrow> nat \<Rightarrow> error + complex ndarray" where
  "solve_Theta Y S reg_param K =
     and_then (matmul (map_nd complex_of_real Y) (conj_T S)) (\<lambda>YS.
     and_then (mat_mul S (conj_T S)) (\<lambda>G.
     and_then (np_add G (mat_map (\<lambda>x. complex_of_real (reg_param * x)) (np_eye K))) (\<lambda>A.
     and_then (np_linalg_inv A) (\<lambda>Ainv.
     matmul YS Ainv))))"

subsection \<open>Prediction and scoring\<close>

text \<open>
  \<^verbatim>\<open>np.argmax\<close> along an axis: the index of the first occurrence of the largest value.
  The scan keeps the best value seen so far and replaces it only by a strictly larger
  one. numpy raises ValueError when the axis is empty, which \<open>np_argmax_axis0\<close> checks
  before it scans; a 0-d array counts as one element.
\<close>

fun argmax_from :: "real \<Rightarrow> nat \<Rightarrow> nat \<Rightarrow> real list \<Rightarrow> nat" where
  "argmax_from best bi i [] = bi"
| "argmax_from best bi i (x # xs) =
     (if best < x then argmax_from x i (Suc i) xs else argmax_from best bi (Suc i) xs)"

fun argmax :: "real list \<Rightarrow> nat" where
  "argmax [] = 0"
| "argmax (x # xs) = argmax_from x 0 1 xs"

definition column :: "'a mat \<Rightarrow> nat \<Rightarrow> 'a list" where
  "column A j = map (\<lambda>r. r ! j) (rows A)"

fun np_argmax_axis0 :: "real ndarray \<Rightarrow> error + nat ndarray" where
  "np_argmax_axis0 (Scalar x) = Inr (Scalar 0)"
| "np_argmax_axis0 (Vector v) = (if v = [] then Inl ValueError else Inr (Scalar (argmax v)))"
| "np_argmax_axis0 (Matrix A) =
     (if nrows A = 0 then Inl ValueError
      else Inr (Vector (map (\<lambda>j. argmax (column A j)) [0..<ncols A])))"

text \<open>
  \<^verbatim>\<open>pred == labels\<close> with a 1-d label array, elementwise with broadcasting; shapes
  that do not broadcast make the comparison (or the \<^verbatim>\<open>.sum()\<close> after it, on older
  numpy releases) raise. \<^verbatim>\<open>.sum()\<close> then counts the True entries.
\<close>

fun np_equal :: "nat ndarray \<Rightarrow> int list \<Rightarrow> error + bool ndarray" where
  "np_equal (Scalar p) ys = Inr (Vector (map (\<lambda>y. int p = y) ys))"
| "np_equal (Vector ps) ys =
     (case bdim (length ps) (length ys) of
        None \<Rightarrow> Inl ValueError
      | Some n \<Rightarrow> Inr (Vector (map (\<lambda>i. int (ps ! (if length ps = 1 then 0 else i))
                                        = ys ! (if length ys = 1 then 0 else i)) [0..<n])))"
| "np_equal (Matrix A) ys =
     (case bdim (ncols A) (length ys) of
        None \<Rightarrow> Inl ValueError
      | Some c \<Rightarrow> Inr (Matrix (mk_mat (nrows A) c (\<lambda>i j.
                         int (entry A i (if ncols A = 1 then 0 else j))
                           = ys ! (if length ys = 1 then 0 else j)))))"

definition np_sum :: "bool ndarray \<Rightarrow> nat" where
  "np_sum b = length (filter (\<lambda>x. x) (reshape_flat b))"

text \<open>
  \<^verbatim>\<open>count / d\<close> on numpy numbers: dividing by zero gives nan or inf (with a warning),
  not an exception.
\<close>

datatype np_float = Finite real | NaN | PosInf

definition np_true_divide :: "nat \<Rightarrow> nat \<Rightarrow> np_float" where
  "np_true_divide c d =
     (if d = 0 then (if c = 0 then NaN else PosInf) else Finite (real c / real d))"

text \<open>
  \<^verbatim>\<open>(np.argmax(np.real(f), axis=0) == labels).sum() / d\<close>: the two accuracy lines,
  which differ in the scores, the labels and the divisor.
\<close>

definition predict :: "complex ndarray \<Rightarrow> error + nat ndarray" where
  "predict f = np_argmax_axis0 (map_nd Re f)"

definition score :: "complex ndarray \<Rightarrow> int list \<Rightarrow> nat \<Rightarrow> error + np_float" where
  "score f labels d =
     and_then (predict f) (\<lambda>p.
     and_then (np_equal p labels) (\<lambda>b.
     Inr (np_true_divide (np_sum b) d)))"

text \<open>
  \<^verbatim>\<open>train_pred = (np.argmax(np.real(f_insample),axis=0) == train_y[0:J]).sum()/J\<close> and
  \<^verbatim>\<open>test_pred = (np.argmax(np.real(f_outsample),axis=0) == test_y).sum()/10000\<close>
\<close>

definition train_pred :: "complex ndarray \<Rightarrow> int list \<Rightarrow> nat \<Rightarrow> error + np_float" where
  "train_pred f_insample train_y J = score f_insample (take J train_y) J"

definition test_pred :: "complex ndarray \<Rightarrow> int list \<Rightarrow> error + np_float" where
  "test_pred f_outsample test_y = score f_outsample test_y 10000"

subsection \<open>The whole run\<close>

text \<open>
  \<^verbatim>\<open>np.random.normal(0, sigma, (M, K))\<close> reads numpy's global generator, which the
  notebook never seeds. The generator is modelled by the sequence of standard normal
  variates it is about to emit; the array is filled in row-major order with
  \<open>loc + scale * z\<close>. A negative scale raises ValueError.
\<close>

definition np_random_normal :: "(nat \<Rightarrow> real) \<Rightarrow> real \<Rightarrow> real \<Rightarrow> nat \<Rightarrow> nat \<Rightarrow> error + real mat" where
  "np_random_normal g loc scale M K =
     (if scale < 0 then Inl ValueError
      else Inr (mk_mat M K (\<lambda>m k. loc + scale * g (m * K + k))))"

text \<open>
  The code cells in order, from the reshape of the loaded arrays on:
  \<^verbatim>\<open>N = train_X.shape[0]\<close>, \<^verbatim>\<open>M = train_X.shape[1]**2\<close>,
  \<^verbatim>\<open>train_X = train_X.reshape(N,M)\<close>, \<^verbatim>\<open>test_X = test_X.reshape(test_X.shape[0],M)\<close>, the two
  calls of \<^verbatim>\<open>one_hot\<close>, the batch, the basis, the two feature matrices, \<^verbatim>\<open>Theta\<close>, the two
  score matrices and the two accuracies. The inputs are the arrays of the data set as
  loaded and the state of the generator; \<open>K\<close>, \<open>sigma\<close>, \<open>reg_param\<close> and \<open>J\<close> are the
  parameters of the first cell. The class count 10 and the divisor 10000 of the test
  accuracy are literals of the source. The result is \<open>Theta\<close> with the two accuracies.
\<close>

definition notebook ::
  "nat \<Rightarrow> real \<Rightarrow> real \<Rightarrow> nat \<Rightarrow> (nat \<Rightarrow> real) \<Rightarrow> real images \<Rightarrow> int list \<Rightarrow> real images \<Rightarrow> int list
     \<Rightarrow> error + (complex ndarray \<times> np_float \<times> np_float)" where
  "notebook K sigma reg_param J g train_raw train_y test_raw test_y =
     (let N = length (pixels train_raw); M = (height train_raw)\<^sup>2 in
      and_then (np_reshape train_raw N M) (\<lambda>train_X.
      and_then (np_reshape test_raw (length (pixels test_raw)) M) (\<lambda>test_X.
      and_then (one_hot (Vector train_y) 10) (\<lambda>train_Y.
      and_then (one_hot (Vector test_y) 10) (\<lambda>test_Y.
      and_then (slice0 train_Y J) (\<lambda>Y0.
      and_then (np_random_normal g 0 sigma M K) (\<lambda>w.
      and_then (feature_matrix (slice_rows train_X J) w) (\<lambda>S.
      and_then (feature_matrix test_X w) (\<lambda>S_test.
      and_then (solve_Theta (np_T_nd Y0) S reg_param K) (\<lambda>Theta.
      and_then (matmul Theta S) (\<lambda>f_insample.
      and_then (matmul Theta S_test) (\<lambda>f_outsample.
      and_then (train_pred f_insample train_y J) (\<lambda>tr.
      and_then (test_pred f_outsample test_y) (\<lambda>te.
      Inr (Theta, tr, te)))))))))))))))"

section \<open>Notions of the specification and of the proofs\<close>

text \<open>
  The specification's \<open>S \<cdot> S\<^sup>H + \<lambda> \<cdot> I\<close> and \<open>Y \<cdot> S\<^sup>H\<close>, written entry by entry
  (\<open>S\<^sup>H\<close> is the conjugate transpose), as the statements about the Ridge Solver need
  them.
\<close>

definition gram_reg :: "complex mat \<Rightarrow> real \<Rightarrow> complex mat" where
  "gram_reg S lam =
     mk_mat (nrows S) (nrows S) (\<lambda>i j.
       (\<Sum>m<ncols S. entry S i m * cnj (entry S j m)) + (if i = j then complex_of_real lam else 0))"

definition label_corr :: "real mat \<Rightarrow> complex mat \<Rightarrow> complex mat" where
  "label_corr Y S =
     mk_mat (nrows Y) (nrows S) (\<lambda>i j.
       \<Sum>m<ncols S. complex_of_real (entry Y i m) * cnj (entry S j m))"

text \<open>The entries of \<open>S \<cdot> S\<^sup>H + \<lambda> \<cdot> I\<close> for a matrix given by its entries \<open>sf\<close>.\<close>

definition gram_entry :: "(nat \<Rightarrow> nat \<Rightarrow> complex) \<Rightarrow> nat \<Rightarrow> real \<Rightarrow> nat \<Rightarrow> nat \<Rightarrow> complex" where
  "gram_entry sf n lam i j =
     (\<Sum>m<n. sf i m * cnj (sf j m)) + (if i = j then complex_of_real lam else 0)"

text \<open>
  The specification's count: the samples whose predicted class equals the true label.
\<close>

definition correct_count :: "nat list \<Rightarrow> int list \<Rightarrow> nat" where
  "correct_count ps labels = length (filter (\<lambda>(p, y). int p = y) (zip ps labels))"

text \<open>
  The specification's one-hot construction: for each sample a row of zeros with a 1 at
  the label's index.
\<close>

definition one_hot_rows :: "nat \<Rightarrow> int list \<Rightarrow> real mat" where
  "one_hot_rows nc labels = Mat nc (map (\<lambda>l. map (\<lambda>j. if l = int j then 1 else 0) [0..<nc]) labels)"

text \<open>
  The invariant of the elimination loop on the rows of \<open>[L | R]\<close>, for a \<open>K \<times> K\<close> matrix
  with entries \<open>a\<close>: the rows have length \<open>2K\<close>; \<open>L = R \<cdot> a\<close>; the first \<open>k\<close> columns of \<open>L\<close>
  are those of the identity; and every vector that \<open>L\<close> sends to zero is sent to zero
  by \<open>a\<close>.
\<close>

definition shaped :: "nat \<Rightarrow> 'a list list \<Rightarrow> bool" where
  "shaped K rs = (length rs = K \<and> (\<forall>i<K. length (rs ! i) = 2 * K))"

definition tracks :: "nat \<Rightarrow> (nat \<Rightarrow> nat \<Rightarrow> 'a::field) \<Rightarrow> 'a list list \<Rightarrow> bool" where
  "tracks K a rs = (\<forall>i<K. \<forall>j<K. rs ! i ! j = (\<Sum>l<K. rs ! i ! (K + l) * a l j))"

definition reduced :: "nat \<Rightarrow> nat \<Rightarrow> ('a::field) list list \<Rightarrow> bool" where
  "reduced K k rs = (\<forall>i<K. \<forall>j<k. rs ! i ! j = (if i = j then 1 else 0))"

definition keeps_kernel :: "nat \<Rightarrow> (nat \<Rightarrow> nat \<Rightarrow> 'a::field) \<Rightarrow> 'a list list \<Rightarrow> bool" where
  "keeps_kernel K a rs =
     (\<forall>x. (\<forall>i<K. (\<Sum>j<K. rs ! i ! j * x j) = 0) \<longrightarrow> (\<forall>i<K. (\<Sum>j<K. a i j * x j) = 0))"

definition gj_inv :: "nat \<Rightarrow> (nat \<Rightarrow> nat \<Rightarrow> 'a::field) \<Rightarrow> nat \<Rightarrow> 'a list list \<Rightarrow> bool" where
  "gj_inv K a k rs = (shaped K rs \<and> tracks K a rs \<and> reduced K k rs \<and> keeps_kernel K a rs)"

section \<open>Properties\<close>

subsection \<open>Shapes and entries of the array operations\<close>

lemma nrows_mk_mat [simp]: "nrows (mk_mat r c f) = r"
  by (simp add: nrows_def mk_mat_def)

lemma ncols_mk_mat [simp]: "ncols (mk_mat r c f) = c"
  by (simp add: mk_mat_def)

lemma wf_mk_mat [simp]: "wf_mat (mk_mat r c f)"
  by (simp add: wf_mat_def mk_mat_def list_all_iff)

lemma entry_mk_mat [simp]: "i < r \<Longrightarrow> j < c \<Longrightarrow> entry (mk_mat r c f) i j = f i j"
  by (simp add: entry_def mk_mat_def)

lemma wf_mat_row: "wf_mat A \<Longrightarrow> i < nrows A \<Longrightarrow> length (rows A ! i) = ncols A"
  by (simp add: wf_mat_def nrows_def list_all_length)

lemma mat_eqI:
  assumes "wf_mat A" "wf_mat B" "nrows A = nrows B" "ncols A = ncols B"
    and "\<And>i j. i < nrows A \<Longrightarrow> j < ncols A \<Longrightarrow> entry A i j = entry B i j"
  shows "A = B"
proof -
  have "rows A = rows B"
  proof (rule nth_equalityI)
    show "length (rows A) = length (rows B)" using assms(3) by (simp add: nrows_def)
  next
    fix i assume i: "i < length (rows A)"
    then have iA: "i < nrows A" and iB: "i < nrows B" using assms(3) by (simp_all add: nrows_def)
    show "rows A ! i = rows B ! i"
    proof (rule nth_equalityI)
      show "length (rows A ! i) = length (rows B ! i)"
        using wf_mat_row[OF assms(1) iA] wf_mat_row[OF assms(2) iB] assms(4) by simp
    next
      fix j assume "j < length (rows A ! i)"
      then have "j < ncols A" using wf_mat_row[OF assms(1) iA] by simp
      from assms(5)[OF iA this] show "rows A ! i ! j = rows B ! i ! j" by (simp add: entry_def)
    qed
  qed
  then show ?thesis using assms(4) by (simp add: mat.expand)
qed

lemma nrows_mat_map [simp]: "nrows (mat_map f A) = nrows A"
  by (simp add: nrows_def mat_map_def)

lemma ncols_mat_map [simp]: "ncols (mat_map f A) = ncols A"
  by (simp add: mat_map_def)

lemma entry_mat_map_mk [simp]:
  "i < r \<Longrightarrow> j < c \<Longrightarrow> entry (mat_map g (mk_mat r c f)) i j = g (f i j)"
  by (simp add: entry_def mat_map_def mk_mat_def)

lemma nrows_np_T [simp]: "nrows (np_T A) = ncols A"
  by (simp add: np_T_def)

lemma ncols_np_T [simp]: "ncols (np_T A) = nrows A"
  by (simp add: np_T_def)

lemma entry_np_T [simp]: "i < ncols A \<Longrightarrow> j < nrows A \<Longrightarrow> entry (np_T A) i j = entry A j i"
  by (simp add: np_T_def)

lemma wf_np_T [simp]: "wf_mat (np_T A)"
  by (simp add: np_T_def)

lemma mk_mat_cong:
  assumes "\<And>i j. i < r \<Longrightarrow> j < c \<Longrightarrow> f i j = g i j"
  shows "mk_mat r c f = mk_mat r c g"
  using assms by (simp add: mk_mat_def)

lemma mat_mul_InrI:
  assumes "ncols A = nrows B" "wf_mat C" "nrows C = nrows A" "ncols C = ncols B"
    and "\<And>i j. i < nrows A \<Longrightarrow> j < ncols B \<Longrightarrow> entry C i j = (\<Sum>k<ncols A. entry A i k * entry B k j)"
  shows "mat_mul A B = Inr C"
proof -
  have "mk_mat (nrows A) (ncols B) (\<lambda>i j. \<Sum>k<ncols A. entry A i k * entry B k j) = C"
    by (rule mat_eqI) (simp_all add: assms)
  then show ?thesis using assms(1) by (simp add: mat_mul_def)
qed

lemma entry_np_eye [simp]: "i < n \<Longrightarrow> j < n \<Longrightarrow> entry (np_eye n) i j = (if i = j then 1 else 0)"
  by (simp add: np_eye_def)

lemma np_eye_shape [simp]: "wf_mat (np_eye n)" "nrows (np_eye n) = n" "ncols (np_eye n) = n"
  by (simp_all add: np_eye_def)

lemmas array_eval = and_then_def nrows_def entry_def wf_mat_def mk_mat_def np_eye_def
  take_rows_def slice_rows_def np_T_def mat_map_def mat_mul_def bdim_def np_add_def
  column_def np_sum_def np_true_divide_def upt_rec

lemmas notebook_eval = augment_def pivot_row_def eliminate_def np_linalg_inv_def s_def
  one_hot_def feature_matrix_def conj_T_def solve_Theta_def predict_def score_def
  train_pred_def test_pred_def np_random_normal_def np_reshape_def notebook_def Let_def

lemmas small_numerals = numeral_2_eq_2 numeral_3_eq_3 lessThan_Suc

subsection \<open>The Feature Mapper\<close>

lemma feature_matrix_eq:
  "ncols X = nrows w \<Longrightarrow>
   feature_matrix X w =
     Inr (mk_mat (ncols w) (nrows X) (\<lambda>k j. s (\<Sum>m<ncols X. entry X j m * entry w m k)))"
  unfolding feature_matrix_def mat_mul_def and_then_def
  by (auto intro!: mat_eqI)

lemma feature_matrix_mismatch:
  "ncols X \<noteq> nrows w \<Longrightarrow> feature_matrix X w = Inl ValueError"
  by (simp add: feature_matrix_def mat_mul_def and_then_def)

text \<open>
  Claim C2. For an input matrix \<open>X\<close> (\<open>n \<times> M\<close>) and a basis \<open>w\<close> (\<open>M \<times> K\<close>) the Feature
  Mapper returns the \<open>K \<times> n\<close> matrix whose entry \<open>(k, j)\<close> is \<open>exp (i * (row j of X \<cdot> column k
  of w))\<close>: the product, the nonlinearity elementwise, and the transpose.
\<close>

theorem feature_matrix_entries:
  assumes "ncols X = nrows w"
  shows "\<exists>S. feature_matrix X w = Inr S \<and> wf_mat S \<and> nrows S = ncols w \<and> ncols S = nrows X \<and>
           (\<forall>k<ncols w. \<forall>j<nrows X.
              entry S k j = exp (\<i> * complex_of_real (\<Sum>m<ncols X. entry X j m * entry w m k)))"
  using feature_matrix_eq[OF assms] by (simp add: s_def)

theorem feature_matrix_entries_witness:
  "ncols (Mat 1 [[1], [0::real]]) = nrows (Mat 1 [[pi]]) \<and>
   (\<exists>S. feature_matrix (Mat 1 [[1], [0]]) (Mat 1 [[pi]]) = Inr S \<and> wf_mat S \<and>
      nrows S = 1 \<and> ncols S = 2 \<and> entry S 0 0 = - 1 \<and> entry S 0 1 = 1)"
  using feature_matrix_entries[of "Mat 1 [[1], [0]]" "Mat 1 [[pi]]"]
  by (simp add: array_eval notebook_eval eval_nat_numeral)

subsection \<open>The Predictor\<close>

lemma argmax_from_props:
  assumes "length pre = i" "bi < i" "pre ! bi = best"
    and "\<forall>j<i. pre ! j \<le> best" and "\<forall>j<bi. pre ! j < best"
  shows "argmax_from best bi i xs < length (pre @ xs) \<and>
         (\<forall>j<length (pre @ xs). (pre @ xs) ! j \<le> (pre @ xs) ! argmax_from best bi i xs) \<and>
         (\<forall>j<argmax_from best bi i xs. (pre @ xs) ! j < (pre @ xs) ! argmax_from best bi i xs)"
  using assms
proof (induction xs arbitrary: pre i bi best)
  case Nil
  then show ?case by simp
next
  case (Cons x xs)
  show ?case
  proof (cases "best < x")
    case True
    have "argmax_from x i (Suc i) xs < length ((pre @ [x]) @ xs) \<and>
         (\<forall>j<length ((pre @ [x]) @ xs). ((pre @ [x]) @ xs) ! j \<le> ((pre @ [x]) @ xs) ! argmax_from x i (Suc i) xs) \<and>
         (\<forall>j<argmax_from x i (Suc i) xs. ((pre @ [x]) @ xs) ! j < ((pre @ [x]) @ xs) ! argmax_from x i (Suc i) xs)"
    proof (rule Cons.IH)
      show "length (pre @ [x]) = Suc i" using Cons.prems(1) by simp
      show "i < Suc i" by simp
      show "(pre @ [x]) ! i = x" using Cons.prems(1) by (simp add: nth_append)
      show "\<forall>j<Suc i. (pre @ [x]) ! j \<le> x"
        using Cons.prems(1,4) True by (auto simp: nth_append less_Suc_eq intro: less_imp_le order.trans)
      show "\<forall>j<i. (pre @ [x]) ! j < x"
        using Cons.prems(1,4) True by (auto simp: nth_append intro: le_less_trans)
    qed
    with True show ?thesis by simp
  next
    case False
    have "argmax_from best bi (Suc i) xs < length ((pre @ [x]) @ xs) \<and>
         (\<forall>j<length ((pre @ [x]) @ xs). ((pre @ [x]) @ xs) ! j \<le> ((pre @ [x]) @ xs) ! argmax_from best bi (Suc i) xs) \<and>
         (\<forall>j<argmax_from best bi (Suc i) xs. ((pre @ [x]) @ xs) ! j < ((pre @ [x]) @ xs) ! argmax_from best bi (Suc i) xs)"
    proof (rule Cons.IH)
      show "length (pre @ [x]) = Suc i" using Cons.prems(1) by simp
      show "bi < Suc i" using Cons.prems(2) by simp
      show "(pre @ [x]) ! bi = best" using Cons.prems(1,2,3) by (simp add: nth_append)
      show "\<forall>j<Suc i. (pre @ [x]) ! j \<le> best"
        using Cons.prems(1,4) False by (auto simp: nth_append less_Suc_eq)
      show "\<forall>j<bi. (pre @ [x]) ! j < best"
        using Cons.prems(1,2,5) by (auto simp: nth_append)
    qed
    with False show ?thesis by simp
  qed
qed

lemma argmax_first_max:
  assumes "xs \<noteq> []"
  shows "argmax xs < length xs \<and> (\<forall>j<length xs. xs ! j \<le> xs ! argmax xs) \<and>
         (\<forall>j<argmax xs. xs ! j < xs ! argmax xs)"
proof -
  from assms obtain x xs' where xs: "xs = x # xs'" by (cases xs) auto
  have "argmax_from x 0 1 xs' < length ([x] @ xs') \<and>
         (\<forall>j<length ([x] @ xs'). ([x] @ xs') ! j \<le> ([x] @ xs') ! argmax_from x 0 1 xs') \<and>
         (\<forall>j<argmax_from x 0 1 xs'. ([x] @ xs') ! j < ([x] @ xs') ! argmax_from x 0 1 xs')"
    by (rule argmax_from_props) simp_all
  then show ?thesis by (simp add: xs)
qed

lemma length_column [simp]: "length (column A j) = nrows A"
  by (simp add: column_def nrows_def)

lemma nth_column [simp]: "i < nrows A \<Longrightarrow> column A j ! i = entry A i j"
  by (simp add: column_def nrows_def entry_def)

lemma predict_Matrix:
  "0 < nrows F \<Longrightarrow>
   predict (Matrix F) = Inr (Vector (map (\<lambda>j. argmax (column (mat_map Re F) j)) [0..<ncols F]))"
  by (simp add: predict_def)

lemma entry_mat_map [simp]:
  "wf_mat A \<Longrightarrow> i < nrows A \<Longrightarrow> j < ncols A \<Longrightarrow> entry (mat_map f A) i j = f (entry A i j)"
  by (simp add: entry_def mat_map_def nrows_def wf_mat_def list_all_length)

text \<open>
  Claim C5. For a score matrix (one row per class, one column per sample) the
  Predictor returns, for each column, the row index of the maximum of the real parts,
  and among several rows that attain the maximum the lowest index: every row is at most
  the chosen one, and every row before it is strictly smaller.
\<close>

theorem predict_first_maximum:
  assumes "wf_mat F" and "0 < nrows F"
  shows "\<exists>ps. predict (Matrix F) = Inr (Vector ps) \<and> length ps = ncols F \<and>
           (\<forall>j<ncols F. ps ! j < nrows F \<and>
              (\<forall>i<nrows F. Re (entry F i j) \<le> Re (entry F (ps ! j) j)) \<and>
              (\<forall>i<ps ! j. Re (entry F i j) < Re (entry F (ps ! j) j)))"
proof -
  let ?ps = "map (\<lambda>j. argmax (column (mat_map Re F) j)) [0..<ncols F]"
  have "ps_ok": "?ps ! j < nrows F \<and>
              (\<forall>i<nrows F. Re (entry F i j) \<le> Re (entry F (?ps ! j) j)) \<and>
              (\<forall>i<?ps ! j. Re (entry F i j) < Re (entry F (?ps ! j) j))" if j: "j < ncols F" for j
  proof -
    let ?c = "column (mat_map Re F) j"
    have ne: "?c \<noteq> []" using assms(2) by (auto simp: column_def nrows_def mat_map_def)
    have len: "length ?c = nrows F" by simp
    have nth: "?c ! i = Re (entry F i j)" if "i < nrows F" for i
      using that j assms(1) by simp
    have *: "argmax ?c < nrows F \<and> (\<forall>i<nrows F. ?c ! i \<le> ?c ! argmax ?c) \<and>
         (\<forall>i<argmax ?c. ?c ! i < ?c ! argmax ?c)"
      using argmax_first_max[OF ne] unfolding len .
    from * have a: "argmax ?c < nrows F" by blast
    from * have b: "\<forall>i<nrows F. ?c ! i \<le> ?c ! argmax ?c" by blast
    from * have c: "\<forall>i<argmax ?c. ?c ! i < ?c ! argmax ?c" by blast
    have psj: "?ps ! j = argmax ?c" using j by simp
    show ?thesis unfolding psj
    proof (intro conjI allI impI)
      show "argmax ?c < nrows F" by (rule a)
    next
      fix i assume i: "i < nrows F"
      from b i have "?c ! i \<le> ?c ! argmax ?c" by blast
      then show "Re (entry F i j) \<le> Re (entry F (argmax ?c) j)"
        unfolding nth[OF i] nth[OF a] .
    next
      fix i assume i: "i < argmax ?c"
      then have i': "i < nrows F" using a by simp
      from c i have "?c ! i < ?c ! argmax ?c" by blast
      then show "Re (entry F i j) < Re (entry F (argmax ?c) j)"
        unfolding nth[OF i'] nth[OF a] .
    qed
  qed
  have "predict (Matrix F) = Inr (Vector ?ps)" by (rule predict_Matrix[OF assms(2)])
  moreover have "length ?ps = ncols F" by simp
  ultimately show ?thesis using ps_ok by blast
qed

theorem predict_first_maximum_witness:
  "wf_mat (Mat 2 [[1, 2], [1, 3], [0, 3 :: complex]]) \<and>
   0 < nrows (Mat 2 [[1, 2], [1, 3], [0, 3 :: complex]]) \<and>
   predict (Matrix (Mat 2 [[1, 2], [1, 3], [0, 3]])) = Inr (Vector [0, 1])"
  using predict_first_maximum[of "Mat 2 [[1, 2], [1, 3], [0, 3]]"]
  by (simp add: array_eval notebook_eval eval_nat_numeral)

subsection \<open>\<^verbatim>\<open>one_hot\<close>\<close>

lemma rows_np_eye_nth:
  "i < n \<Longrightarrow> rows (np_eye n) ! i = map (\<lambda>j. if i = j then 1 else 0) [0..<n]"
  by (simp add: np_eye_def mk_mat_def)

lemma take_rows_eye:
  assumes "list_all (\<lambda>l. 0 \<le> l \<and> l < int nc) labels"
  shows "take_rows (np_eye nc) labels = Inr (one_hot_rows nc labels)"
proof -
  have in_range: "list_all (\<lambda>i. - int (nrows (np_eye nc :: real mat)) \<le> i
                               \<and> i < int (nrows (np_eye nc :: real mat))) labels"
    using assms by (auto simp: list_all_iff)
  have row: "rows (np_eye nc :: real mat) ! nat (l mod int nc)
             = map (\<lambda>j. if l = int j then 1 else 0) [0..<nc]"
    if "l \<in> set labels" for l
  proof -
    from that assms have l: "0 \<le> l" "l < int nc" by (auto simp: list_all_iff)
    then have "nat (l mod int nc) = nat l" by simp
    moreover have "nat l < nc" using l by simp
    ultimately show ?thesis using l by (auto simp: rows_np_eye_nth)
  qed
  have "map (\<lambda>l. rows (np_eye nc :: real mat) ! nat (l mod int (nrows (np_eye nc :: real mat)))) labels
        = map (\<lambda>l. map (\<lambda>j. if l = int j then 1 else 0) [0..<nc]) labels"
    by (rule map_cong) (simp_all add: row)
  then show ?thesis
    using in_range by (simp add: take_rows_def one_hot_rows_def)
qed

lemma nrows_one_hot_rows [simp]: "nrows (one_hot_rows nc labels) = length labels"
  by (simp add: one_hot_rows_def nrows_def)

lemma ncols_one_hot_rows [simp]: "ncols (one_hot_rows nc labels) = nc"
  by (simp add: one_hot_rows_def)

lemma entry_one_hot_rows [simp]:
  "i < length labels \<Longrightarrow> j < nc \<Longrightarrow>
   entry (one_hot_rows nc labels) i j = (if labels ! i = int j then 1 else 0)"
  by (simp add: one_hot_rows_def entry_def)

lemma one_hot_in_range:
  assumes "list_all (\<lambda>l. 0 \<le> l \<and> l < int nc) (reshape_flat a)"
  shows "one_hot a nc = Inr (np_squeeze (Matrix (one_hot_rows nc (reshape_flat a))))"
  by (simp add: one_hot_def take_rows_eye[OF assms] and_then_def)

lemma one_hot_out_of_range:
  assumes "\<not> list_all (\<lambda>l. - int nc \<le> l \<and> l < int nc) (reshape_flat a)"
  shows "one_hot a nc = Inl IndexError"
  using assms by (simp add: one_hot_def take_rows_def and_then_def np_eye_def)

lemma sum_indicator_one:
  assumes "0 \<le> l" "l < int nc"
  shows "(\<Sum>i<nc. if l = int i then 1 else 0 :: real) = 1"
proof -
  have "(\<Sum>i<nc. if l = int i then 1 else 0 :: real) = (\<Sum>i\<in>{..<nc}. if i = nat l then 1 else 0)"
    using assms by (intro sum.cong) auto
  also have "\<dots> = 1" using assms by (simp add: sum.delta)
  finally show ?thesis .
qed

text \<open>
  Claim C8, as amended. For labels in \<open>[0, num_classes)\<close>, with more than one class and
  a number of samples other than one, \<^verbatim>\<open>one_hot\<close> followed by the transpose is the
  \<open>num_classes \<times> samples\<close> matrix whose column \<open>j\<close> has a 1 in row \<open>labels[j]\<close> and 0
  elsewhere, so each column has exactly one 1 and sums to 1. With one sample or one
  class \<^verbatim>\<open>np.squeeze\<close> removes the axis of length one and the result is not a matrix
  of that shape: the counterexample has one sample and two classes.
\<close>

theorem one_hot_columns:
  assumes "list_all (\<lambda>l. 0 \<le> l \<and> l < int nc) (reshape_flat a)"
    and "length (reshape_flat a) \<noteq> 1" and "nc \<noteq> 1"
  shows "\<exists>R Y. one_hot a nc = Inr R \<and> np_T_nd R = Matrix Y \<and> wf_mat Y \<and>
           nrows Y = nc \<and> ncols Y = length (reshape_flat a) \<and>
           (\<forall>j<length (reshape_flat a).
              (\<forall>i<nc. entry Y i j = (if reshape_flat a ! j = int i then 1 else 0)) \<and>
              (\<exists>i<nc. entry Y i j = 1 \<and> (\<forall>i'<nc. i' \<noteq> i \<longrightarrow> entry Y i' j = 0)) \<and>
              (\<Sum>i<nc. entry Y i j) = 1)"
proof -
  let ?ls = "reshape_flat a"
  let ?R = "one_hot_rows nc ?ls"
  have R: "one_hot a nc = Inr (Matrix ?R)"
    using one_hot_in_range[OF assms(1)] assms(2,3) by simp
  have T: "np_T_nd (Matrix ?R) = Matrix (np_T ?R)" by simp
  have ent: "entry (np_T ?R) i j = (if ?ls ! j = int i then 1 else 0)"
    if "i < nc" "j < length ?ls" for i j using that by simp
  have col: "(\<forall>i<nc. entry (np_T ?R) i j = (if ?ls ! j = int i then 1 else 0)) \<and>
             (\<exists>i<nc. entry (np_T ?R) i j = 1 \<and> (\<forall>i'<nc. i' \<noteq> i \<longrightarrow> entry (np_T ?R) i' j = 0)) \<and>
              (\<Sum>i<nc. entry (np_T ?R) i j) = 1" if j: "j < length ?ls" for j
  proof -
    from assms(1) j have l: "0 \<le> ?ls ! j" "?ls ! j < int nc"
      by (simp_all add: list_all_length)
    have a: "\<forall>i<nc. entry (np_T ?R) i j = (if ?ls ! j = int i then 1 else 0)"
      using ent j by blast
    have n: "nat (?ls ! j) < nc" using l by simp
    have b: "\<exists>i<nc. entry (np_T ?R) i j = 1 \<and> (\<forall>i'<nc. i' \<noteq> i \<longrightarrow> entry (np_T ?R) i' j = 0)"
    proof (intro exI[of _ "nat (?ls ! j)"] conjI allI impI)
      show "nat (?ls ! j) < nc" by (rule n)
      show "entry (np_T ?R) (nat (?ls ! j)) j = 1" using ent[OF n j] l by simp
    next
      fix i' assume "i' < nc" "i' \<noteq> nat (?ls ! j)"
      then show "entry (np_T ?R) i' j = 0" using ent[OF _ j, of i'] l by auto
    qed
    have "(\<Sum>i<nc. entry (np_T ?R) i j) = (\<Sum>i<nc. if ?ls ! j = int i then 1 else 0)"
      using ent j by (intro sum.cong) auto
    then have c: "(\<Sum>i<nc. entry (np_T ?R) i j) = 1" using sum_indicator_one[OF l] by simp
    from a b c show ?thesis by blast
  qed
  have "wf_mat (np_T ?R)" "nrows (np_T ?R) = nc" "ncols (np_T ?R) = length ?ls" by simp_all
  with R T col show ?thesis by blast
qed

theorem one_hot_columns_witness:
  "list_all (\<lambda>l. 0 \<le> l \<and> l < int 3) (reshape_flat (Vector [2, 0])) \<and>
   length (reshape_flat (Vector [2, 0 :: int])) \<noteq> 1 \<and> (3::nat) \<noteq> 1 \<and>
   one_hot (Vector [2, 0]) 3 = Inr (Matrix (Mat 3 [[0, 0, 1], [1, 0, 0]])) \<and>
   np_T_nd (Matrix (Mat 3 [[0, 0, 1], [1, 0, 0 :: real]])) = Matrix (Mat 2 [[0, 1], [0, 0], [1, 0]])"
  using one_hot_columns[of 3 "Vector [2, 0]"]
  by (simp add: array_eval notebook_eval eval_nat_numeral)

theorem one_hot_columns_counterexample:
  "one_hot (Vector [0]) 2 = Inr (Vector [1, 0]) \<and>
   np_T_nd (Vector [1, 0 :: real]) = Vector [1, 0] \<and>
   shape (Vector [1, 0 :: real]) \<noteq> [2, 1]"
  by (simp add: array_eval notebook_eval eval_nat_numeral)

text \<open>
  Claim C9, as amended. For a single label in \<open>[0, num_classes)\<close>, \<^verbatim>\<open>one_hot\<close> returns
  no \<open>1 \<times> num_classes\<close> matrix: with two or more classes it returns the 1-d one-hot
  vector of length \<open>num_classes\<close>, and with exactly one class the squeeze removes both
  axes and the result is the 0-d array \<open>1\<close> (the counterexample).
\<close>

theorem one_hot_single_label:
  assumes "reshape_flat a = [l]" and "0 \<le> l" and "l < int nc"
  shows "(nc \<noteq> 1 \<longrightarrow>
            one_hot a nc = Inr (Vector (map (\<lambda>j. if l = int j then 1 else 0) [0..<nc])) \<and>
            shape (Vector (map (\<lambda>j. if l = int j then 1 else 0 :: real) [0..<nc])) = [nc]) \<and>
         (nc = 1 \<longrightarrow> one_hot a nc = Inr (Scalar 1))"
proof -
  have "list_all (\<lambda>l. 0 \<le> l \<and> l < int nc) (reshape_flat a)" using assms by simp
  from one_hot_in_range[OF this] assms show ?thesis
    by (auto simp: one_hot_rows_def nrows_def entry_def)
qed

theorem one_hot_single_label_witness:
  "reshape_flat (Vector [1]) = [1 :: int] \<and> (0::int) \<le> 1 \<and> (1::int) < int 3 \<and> (3::nat) \<noteq> 1 \<and>
   one_hot (Vector [1]) 3 = Inr (Vector [0, 1, 0])"
  using one_hot_single_label[of "Vector [1]" 1 3]
  by (simp add: array_eval notebook_eval eval_nat_numeral)

theorem one_hot_single_label_counterexample:
  "one_hot (Vector [0]) 1 = Inr (Scalar 1) \<and> (\<forall>v. one_hot (Vector [0]) 1 \<noteq> Inr (Vector v))"
  by (simp add: array_eval notebook_eval eval_nat_numeral)

subsection \<open>The accuracies\<close>

lemma predict_Matrix_length:
  "0 < nrows F \<Longrightarrow> \<exists>ps. predict (Matrix F) = Inr (Vector ps) \<and> length ps = ncols F"
  by (simp add: predict_Matrix)

lemma np_equal_same_length:
  assumes "length ps = length labels"
  shows "np_equal (Vector ps) labels = Inr (Vector (map (\<lambda>(p, y). int p = y) (zip ps labels)))"
proof -
  let ?n = "length labels"
  have "map (\<lambda>i. int (ps ! (if length ps = 1 then 0 else i)) = labels ! (if ?n = 1 then 0 else i)) [0..<?n]
        = map (\<lambda>(p, y). int p = y) (zip ps labels)"
    using assms by (intro nth_equalityI) auto
  then show ?thesis using assms by (simp add: bdim_def)
qed

lemma np_sum_matches:
  "np_sum (Vector (map (\<lambda>(p, y). int p = y) (zip ps labels))) = correct_count ps labels"
proof -
  have "filter (\<lambda>x. x) (map (\<lambda>(p, y). int p = y) (zip ps labels))
        = map (\<lambda>(p, y). int p = y) (filter (\<lambda>(p, y). int p = y) (zip ps labels))"
    by (simp add: filter_map comp_def)
  then show ?thesis by (simp add: np_sum_def correct_count_def)
qed

lemma correct_count_le: "correct_count ps labels \<le> length labels"
proof -
  have "correct_count ps labels \<le> length (zip ps labels)"
    unfolding correct_count_def by (rule length_filter_le)
  then show ?thesis by simp
qed

lemma score_Matrix:
  assumes "predict (Matrix F) = Inr (Vector ps)" and "length ps = length labels"
  shows "score (Matrix F) labels d = Inr (np_true_divide (correct_count ps labels) d)"
  by (simp add: score_def assms(1) and_then_def np_equal_same_length[OF assms(2)] np_sum_matches
        del: np_equal.simps)

lemma np_true_divide_unit:
  assumes "c \<le> n" and "0 < n"
  shows "np_true_divide c n = Finite (real c / real n) \<and> 0 \<le> real c / real n \<and> real c / real n \<le> 1"
  using assms by (simp add: np_true_divide_def)

lemma train_pred_Matrix:
  assumes "0 < nrows F" and "ncols F = min J (length train_y)"
  shows "\<exists>ps. predict (Matrix F) = Inr (Vector ps) \<and> length ps = ncols F \<and>
           correct_count ps (take J train_y) \<le> ncols F \<and>
           train_pred (Matrix F) train_y J
             = Inr (np_true_divide (correct_count ps (take J train_y)) J)"
proof -
  from predict_Matrix_length[OF assms(1)] obtain ps
    where ps: "predict (Matrix F) = Inr (Vector ps)" and len: "length ps = ncols F" by blast
  have len': "length ps = length (take J train_y)" using len assms(2) by simp
  have c: "correct_count ps (take J train_y) \<le> ncols F"
    using correct_count_le[of ps "take J train_y"] assms(2) by simp
  have "train_pred (Matrix F) train_y J
             = Inr (np_true_divide (correct_count ps (take J train_y)) J)"
    unfolding train_pred_def by (rule score_Matrix[OF ps len'])
  with ps len c show ?thesis by blast
qed

lemma test_pred_Matrix:
  assumes "0 < nrows G" and "ncols G = length test_y"
  shows "\<exists>qs. predict (Matrix G) = Inr (Vector qs) \<and> length qs = ncols G \<and>
           correct_count qs test_y \<le> ncols G \<and>
           test_pred (Matrix G) test_y = Inr (np_true_divide (correct_count qs test_y) 10000)"
proof -
  from predict_Matrix_length[OF assms(1)] obtain qs
    where qs: "predict (Matrix G) = Inr (Vector qs)" and len: "length qs = ncols G" by blast
  have len': "length qs = length test_y" using len assms(2) by simp
  have c: "correct_count qs test_y \<le> ncols G"
    using correct_count_le[of qs test_y] assms(2) by simp
  have "test_pred (Matrix G) test_y = Inr (np_true_divide (correct_count qs test_y) 10000)"
    unfolding test_pred_def by (rule score_Matrix[OF qs len'])
  with qs len c show ?thesis by blast
qed

text \<open>
  Claim C4, as amended. For a training score matrix \<open>F\<close> and a test score matrix \<open>G\<close>
  (one column per scored sample) the notebook reports the number of columns whose
  predicted class equals the label, divided by \<open>J\<close> for the training batch and by the
  literal 10000 for the test set. The value is the fraction of the samples scored, and
  lies in \<open>[0, 1]\<close>, when that divisor is the number of samples scored: \<open>0 < J \<le> N\<close>,
  respectively a test set of 10000 samples. The counterexample scores three test
  samples, one of them correctly, and reports 1/10000.
\<close>

theorem accuracy_divisors:
  assumes "0 < nrows F" and "ncols F = min J (length train_y)"
    and "0 < nrows G" and "ncols G = length test_y"
  shows "\<exists>ps qs. predict (Matrix F) = Inr (Vector ps) \<and> length ps = ncols F \<and>
           predict (Matrix G) = Inr (Vector qs) \<and> length qs = ncols G \<and>
           train_pred (Matrix F) train_y J
             = Inr (np_true_divide (correct_count ps (take J train_y)) J) \<and>
           test_pred (Matrix G) test_y
             = Inr (np_true_divide (correct_count qs test_y) 10000) \<and>
           (J = ncols F \<and> 0 < J \<longrightarrow>
              train_pred (Matrix F) train_y J
                = Inr (Finite (real (correct_count ps (take J train_y)) / real (ncols F))) \<and>
              0 \<le> real (correct_count ps (take J train_y)) / real (ncols F) \<and>
              real (correct_count ps (take J train_y)) / real (ncols F) \<le> 1) \<and>
           (10000 = ncols G \<longrightarrow>
              test_pred (Matrix G) test_y
                = Inr (Finite (real (correct_count qs test_y) / real (ncols G))) \<and>
              0 \<le> real (correct_count qs test_y) / real (ncols G) \<and>
              real (correct_count qs test_y) / real (ncols G) \<le> 1)"
proof -
  from train_pred_Matrix[OF assms(1,2)] obtain ps
    where ps: "predict (Matrix F) = Inr (Vector ps)" "length ps = ncols F"
      and c: "correct_count ps (take J train_y) \<le> ncols F"
      and tr: "train_pred (Matrix F) train_y J
             = Inr (np_true_divide (correct_count ps (take J train_y)) J)" by blast
  from test_pred_Matrix[OF assms(3,4)] obtain qs
    where qs: "predict (Matrix G) = Inr (Vector qs)" "length qs = ncols G"
      and c': "correct_count qs test_y \<le> ncols G"
      and te: "test_pred (Matrix G) test_y
             = Inr (np_true_divide (correct_count qs test_y) 10000)" by blast
  have tr1: "train_pred (Matrix F) train_y J
                = Inr (Finite (real (correct_count ps (take J train_y)) / real (ncols F))) \<and>
              0 \<le> real (correct_count ps (take J train_y)) / real (ncols F) \<and>
              real (correct_count ps (take J train_y)) / real (ncols F) \<le> 1"
    if "J = ncols F \<and> 0 < J"
  proof -
    from that have J: "J = ncols F" and "0 < ncols F" by simp_all
    from np_true_divide_unit[OF c this(2)] tr show ?thesis by (simp add: J)
  qed
  have te1: "test_pred (Matrix G) test_y
                = Inr (Finite (real (correct_count qs test_y) / real (ncols G))) \<and>
              0 \<le> real (correct_count qs test_y) / real (ncols G) \<and>
              real (correct_count qs test_y) / real (ncols G) \<le> 1"
    if n: "10000 = ncols G"
  proof -
    have "0 < ncols G" using n by simp
    from np_true_divide_unit[OF c' this] te show ?thesis by (simp add: n[symmetric])
  qed
  show ?thesis
  proof (rule exI[of _ ps], rule exI[of _ qs], intro conjI)
    show "J = ncols F \<and> 0 < J \<longrightarrow>
              train_pred (Matrix F) train_y J
                = Inr (Finite (real (correct_count ps (take J train_y)) / real (ncols F))) \<and>
              0 \<le> real (correct_count ps (take J train_y)) / real (ncols F) \<and>
              real (correct_count ps (take J train_y)) / real (ncols F) \<le> 1"
      by (rule impI) (rule tr1)
    show "10000 = ncols G \<longrightarrow>
              test_pred (Matrix G) test_y
                = Inr (Finite (real (correct_count qs test_y) / real (ncols G))) \<and>
              0 \<le> real (correct_count qs test_y) / real (ncols G) \<and>
              real (correct_count qs test_y) / real (ncols G) \<le> 1"
      by (rule impI) (rule te1)
  qed (fact ps qs tr te)+
qed

theorem accuracy_divisors_witness:
  "0 < nrows (Mat 3 [[1, 1, 1], [0, 0, 0 :: complex]]) \<and>
   ncols (Mat 3 [[1, 1, 1], [0, 0, 0 :: complex]]) = min 3 (length [0, 1, 1 :: int]) \<and>
   0 < nrows (Mat 2 [[0, 0], [1, 1 :: complex]]) \<and>
   ncols (Mat 2 [[0, 0], [1, 1 :: complex]]) = length [0, 1 :: int] \<and>
   train_pred (Matrix (Mat 3 [[1, 1, 1], [0, 0, 0]])) [0, 1, 1] 3 = Inr (Finite (1 / 3)) \<and>
   test_pred (Matrix (Mat 2 [[0, 0], [1, 1]])) [0, 1] = Inr (Finite (1 / 10000))"
  using accuracy_divisors[of "Mat 3 [[1, 1, 1], [0, 0, 0]]" 3 "[0, 1, 1]" "Mat 2 [[0, 0], [1, 1]]" "[0, 1]"]
  by (simp add: array_eval notebook_eval correct_count_def)

theorem accuracy_divisors_counterexample:
  "predict (Matrix (Mat 3 [[1, 1, 1], [0, 0, 0]])) = Inr (Vector [0, 0, 0]) \<and>
   correct_count [0, 0, 0] [0, 1, 1] = 1 \<and>
   test_pred (Matrix (Mat 3 [[1, 1, 1], [0, 0, 0]])) [0, 1, 1] = Inr (Finite (1 / 10000)) \<and>
   Finite (1 / 10000) \<noteq> Finite (1 / 3)"
  by (simp add: array_eval notebook_eval correct_count_def)

subsection \<open>The Ridge Solver\<close>

lemma conj_T_eq:
  assumes "wf_mat S"
  shows "conj_T S = mk_mat (ncols S) (nrows S) (\<lambda>m j. cnj (entry S j m))"
  unfolding conj_T_def np_T_def
  by (simp, rule mk_mat_cong) (simp add: assms)

lemma entry_gram_reg:
  "i < nrows S \<Longrightarrow> j < nrows S \<Longrightarrow>
   entry (gram_reg S lam) i j = gram_entry (entry S) (ncols S) lam i j"
  by (simp add: gram_reg_def gram_entry_def)

lemma gram_reg_shape [simp]:
  "wf_mat (gram_reg S lam)" "nrows (gram_reg S lam) = nrows S" "ncols (gram_reg S lam) = nrows S"
  by (simp_all add: gram_reg_def)

lemma label_corr_shape [simp]:
  "wf_mat (label_corr Y S)" "nrows (label_corr Y S) = nrows Y" "ncols (label_corr Y S) = nrows S"
  by (simp_all add: label_corr_def)

lemma mat_mul_gram:
  assumes "wf_mat S"
  shows "mat_mul S (conj_T S)
         = Inr (mk_mat (nrows S) (nrows S) (\<lambda>i j. \<Sum>m<ncols S. entry S i m * cnj (entry S j m)))"
  unfolding mat_mul_def conj_T_eq[OF assms]
  by (simp, rule mk_mat_cong) simp

lemma np_add_gram:
  assumes "nrows S = K"
  shows "np_add (mk_mat (nrows S) (nrows S) (\<lambda>i j. \<Sum>m<ncols S. entry S i m * cnj (entry S j m)))
           (mat_map (\<lambda>x. complex_of_real (reg_param * x)) (np_eye K))
         = Inr (gram_reg S reg_param)"
proof -
  have "mk_mat K K (\<lambda>i j.
            entry (mk_mat K K (\<lambda>i j. \<Sum>m<ncols S. entry S i m * cnj (entry S j m)))
              (if K = 1 then 0 else i) (if K = 1 then 0 else j)
          + entry (mat_map (\<lambda>x. complex_of_real (reg_param * x)) (np_eye K))
              (if K = 1 then 0 else i) (if K = 1 then 0 else j))
        = mk_mat K K (\<lambda>i j. (\<Sum>m<ncols S. entry S i m * cnj (entry S j m))
                            + (if i = j then complex_of_real reg_param else 0))"
    by (rule mk_mat_cong) (auto simp: np_eye_def)
  then show ?thesis using assms by (simp add: np_add_def bdim_def gram_reg_def np_eye_def)
qed

lemma matmul_label:
  assumes "wf_mat Y" "wf_mat S" "ncols Y = ncols S"
  shows "matmul (map_nd complex_of_real (Matrix Y)) (conj_T S) = Inr (Matrix (label_corr Y S))"
proof -
  have "mk_mat (nrows Y) (nrows S) (\<lambda>i j. \<Sum>k<ncols S. entry (mat_map complex_of_real Y) i k
             * entry (mk_mat (ncols S) (nrows S) (\<lambda>m j. cnj (entry S j m))) k j)
        = label_corr Y S"
    unfolding label_corr_def by (rule mk_mat_cong) (simp add: assms)
  then show ?thesis
    using assms(3) by (simp add: conj_T_eq[OF assms(2)] mat_mul_def and_then_def)
qed

lemma solve_Theta_eq:
  assumes "wf_mat S" "nrows S = K" "wf_mat Y" "ncols Y = ncols S"
  shows "solve_Theta (Matrix Y) S reg_param K
         = and_then (np_linalg_inv (gram_reg S reg_param))
             (\<lambda>Ainv. matmul (Matrix (label_corr Y S)) Ainv)"
  unfolding solve_Theta_def
  by (simp only: matmul_label[OF assms(3,1,4)] mat_mul_gram[OF assms(1)] np_add_gram[OF assms(2)]
        and_then_def sum.case)

lemma length_eliminate [simp]: "length (eliminate k p rs) = length rs"
  by (simp add: eliminate_def Let_def)






subsection \<open>The whole run\<close>

text \<open>What a run that returns has computed, step by step, and the shapes of the steps.\<close>

lemma and_then_Inr:
  "and_then m f = Inr y \<Longrightarrow> \<exists>x. m = Inr x \<and> f x = Inr y"
  by (cases m) (simp_all add: and_then_def)

lemma nrows_slice_rows [simp]: "nrows (slice_rows A n) = min n (nrows A)"
  by (simp add: slice_rows_def nrows_def min.commute)

lemma ncols_slice_rows [simp]: "ncols (slice_rows A n) = ncols A"
  by (simp add: slice_rows_def)

lemma slice_rows_all: "nrows A \<le> n \<Longrightarrow> slice_rows A n = A"
  by (cases A) (simp add: slice_rows_def nrows_def)

lemma nrows_conj_T [simp]: "nrows (conj_T S) = ncols S"
  by (simp add: conj_T_def)

lemma np_reshape_Inr:
  "np_reshape a r c = Inr A \<Longrightarrow> nrows A = r \<and> ncols A = c \<and> wf_mat A"
  by (auto simp: np_reshape_def split: if_splits)

lemma np_random_normal_shape:
  "np_random_normal g loc sc M K = Inr w \<Longrightarrow> nrows w = M \<and> ncols w = K"
  by (auto simp: np_random_normal_def split: if_splits)

lemma feature_matrix_shape:
  assumes "feature_matrix X w = Inr S"
  shows "wf_mat S \<and> nrows S = ncols w \<and> ncols S = nrows X"
proof (cases "ncols X = nrows w")
  case True
  from feature_matrix_eq[OF True] assms show ?thesis by auto
next
  case False
  with assms show ?thesis by (simp add: feature_matrix_mismatch)
qed

lemma matmul_Matrix_shape:
  assumes "matmul (Matrix A) B = Inr f"
  shows "\<exists>C. f = Matrix C \<and> mat_mul A B = Inr C \<and> nrows C = nrows A \<and> ncols C = ncols B"
  using assms by (auto simp: and_then_def mat_mul_def split: if_splits)

lemma one_hot_Inr_cases:
  assumes "one_hot (Vector ys) nc = Inr train_Y"
  shows "\<exists>R. nrows R = length ys \<and> ncols R = nc \<and> wf_mat R \<and> train_Y = np_squeeze (Matrix R)"
proof -
  from and_then_Inr[OF assms[unfolded one_hot_def]] obtain R
    where R: "take_rows (np_eye nc) (reshape_flat (Vector ys)) = Inr R"
      and Y: "train_Y = np_squeeze (Matrix R)" by auto
  from R have ok: "list_all (\<lambda>i. - int nc \<le> i \<and> i < int nc) ys"
    and RR: "R = Mat nc (map (\<lambda>i. rows (np_eye nc :: real mat) ! nat (i mod int nc)) ys)"
    by (auto simp: take_rows_def split: if_splits)
  have "length (rows (np_eye nc :: real mat) ! nat (i mod int nc)) = nc" if "i \<in> set ys" for i
  proof -
    from ok that have "- int nc \<le> i" "i < int nc" by (auto simp: list_all_iff)
    then have "0 < int nc" by linarith
    then have "nat (i mod int nc) < nc" by (simp add: nat_less_iff)
    then show ?thesis by (simp add: rows_np_eye_nth)
  qed
  then have "wf_mat R" by (simp add: RR wf_mat_def list_all_iff)
  moreover have "nrows R = length ys" "ncols R = nc" by (simp_all add: RR nrows_def)
  ultimately show ?thesis using Y by blast
qed

lemma solve_Theta_Matrix_shape:
  assumes "solve_Theta (Matrix Y) S reg_param K = Inr Theta"
  shows "\<exists>T. Theta = Matrix T \<and> nrows T = nrows Y"
proof -
  from and_then_Inr[OF assms[unfolded solve_Theta_def]] obtain YS
    where a: "matmul (map_nd complex_of_real (Matrix Y)) (conj_T S) = Inr YS"
      and 1: "and_then (mat_mul S (conj_T S)) (\<lambda>G.
     and_then (np_add G (mat_map (\<lambda>x. complex_of_real (reg_param * x)) (np_eye K))) (\<lambda>A.
     and_then (np_linalg_inv A) (\<lambda>Ainv.
     matmul YS Ainv))) = Inr Theta" by blast
  from and_then_Inr[OF 1] obtain G where 2: "and_then (np_add G (mat_map (\<lambda>x. complex_of_real (reg_param * x)) (np_eye K))) (\<lambda>A.
     and_then (np_linalg_inv A) (\<lambda>Ainv.
     matmul YS Ainv)) = Inr Theta" by blast
  from and_then_Inr[OF 2] obtain A where 3: "and_then (np_linalg_inv A) (\<lambda>Ainv.
     matmul YS Ainv) = Inr Theta" by blast
  from and_then_Inr[OF 3] obtain Ainv where b: "matmul YS Ainv = Inr Theta" by blast
  from a have a': "matmul (Matrix (mat_map complex_of_real Y)) (conj_T S) = Inr YS" by simp
  from matmul_Matrix_shape[OF a'] obtain C where C: "YS = Matrix C" "nrows C = nrows Y"
    by auto
  from matmul_Matrix_shape[OF b[unfolded C(1)]] C(2) show ?thesis by auto
qed

lemma solve_Theta_Vector_mismatch:
  assumes "length v \<noteq> ncols S"
  shows "solve_Theta (Vector v) S reg_param K = Inl ValueError"
  using assms by (simp add: solve_Theta_def and_then_def)

lemma and_then_InrE:
  assumes "and_then m f = Inr y"
  obtains x where "m = Inr x" and "f x = Inr y"
  using and_then_Inr[OF assms] by blast

lemma notebook_Inr_steps:
  assumes "notebook K sigma reg_param J g train_raw train_y test_raw test_y = Inr (Theta, tr, te)"
  obtains train_X test_X train_Y test_Y Y0 w S S_test f_insample f_outsample
  where "np_reshape train_raw (length (pixels train_raw)) ((height train_raw)\<^sup>2) = Inr train_X"
    and "np_reshape test_raw (length (pixels test_raw)) ((height train_raw)\<^sup>2) = Inr test_X"
    and "one_hot (Vector train_y) 10 = Inr train_Y"
    and "one_hot (Vector test_y) 10 = Inr test_Y"
    and "slice0 train_Y J = Inr Y0"
    and "np_random_normal g 0 sigma ((height train_raw)\<^sup>2) K = Inr w"
    and "feature_matrix (slice_rows train_X J) w = Inr S"
    and "feature_matrix test_X w = Inr S_test"
    and "solve_Theta (np_T_nd Y0) S reg_param K = Inr Theta"
    and "matmul Theta S = Inr f_insample"
    and "matmul Theta S_test = Inr f_outsample"
    and "train_pred f_insample train_y J = Inr tr"
    and "test_pred f_outsample test_y = Inr te"
  using assms unfolding notebook_def Let_def
  by (elim and_then_InrE) auto

text \<open>
  Claim C10, as amended. When the batch size \<open>J\<close> exceeds the number \<open>N\<close> of training
  samples and the run completes, \<open>N\<close> is not 1, the slices \<^verbatim>\<open>train_X[0:J]\<close> and
  \<^verbatim>\<open>train_y[0:J]\<close> are the whole arrays (\<open>N\<close> rows, no error), all \<open>N\<close> samples are mapped and
  scored, and the count of correct predictions is divided by \<open>J\<close>: the reported training
  accuracy is strictly below the fraction of correctly predicted scored samples as soon
  as one sample is predicted correctly. With \<open>N = 1 < J\<close> the run does not complete:
  \<^verbatim>\<open>one_hot\<close> squeezes the single row of labels to a vector of ten entries and the first
  product of the Ridge Solver raises ValueError (the counterexample).
\<close>

theorem batch_size_exceeds_training_set:
  assumes big: "length (pixels train_raw) < J"
    and len: "length train_y = length (pixels train_raw)"
    and run: "notebook K sigma reg_param J g train_raw train_y test_raw test_y = Inr (Theta, tr, te)"
  shows "length (pixels train_raw) \<noteq> 1 \<and>
         (\<exists>train_X w S T F ps.
            np_reshape train_raw (length (pixels train_raw)) ((height train_raw)\<^sup>2) = Inr train_X \<and>
            nrows train_X = length (pixels train_raw) \<and>
            slice_rows train_X J = train_X \<and> take J train_y = train_y \<and>
            feature_matrix train_X w = Inr S \<and> ncols S = length (pixels train_raw) \<and>
            Theta = Matrix T \<and> mat_mul T S = Inr F \<and> ncols F = length (pixels train_raw) \<and>
            predict (Matrix F) = Inr (Vector ps) \<and> length ps = length (pixels train_raw) \<and>
            tr = Finite (real (correct_count ps train_y) / real J) \<and>
            (0 < correct_count ps train_y \<longrightarrow>
               real (correct_count ps train_y) / real J
                 < real (correct_count ps train_y) / real (length (pixels train_raw))))"
proof -
  let ?N = "length (pixels train_raw)"
  from run obtain train_X test_X train_Y test_Y Y0 w S S_test f_insample f_outsample
    where s1: "np_reshape train_raw ?N ((height train_raw)\<^sup>2) = Inr train_X"
      and s3: "one_hot (Vector train_y) 10 = Inr train_Y"
      and s5: "slice0 train_Y J = Inr Y0"
      and s7: "feature_matrix (slice_rows train_X J) w = Inr S"
      and s9: "solve_Theta (np_T_nd Y0) S reg_param K = Inr Theta"
      and s10: "matmul Theta S = Inr f_insample"
      and s12: "train_pred f_insample train_y J = Inr tr"
    by (rule notebook_Inr_steps)
  from np_reshape_Inr[OF s1] have X: "nrows train_X = ?N" by simp
  have sl: "slice_rows train_X J = train_X" using X big by (simp add: slice_rows_all)
  have tk: "take J train_y = train_y" using big len by simp
  have J: "0 < J" using big by simp
  from s7 have s7': "feature_matrix train_X w = Inr S" by (simp add: sl)
  from feature_matrix_shape[OF s7'] X have S: "ncols S = ?N" by simp
  from one_hot_Inr_cases[OF s3] len obtain R
    where R: "nrows R = ?N" "ncols R = 10" "wf_mat R" and Y: "train_Y = np_squeeze (Matrix R)"
    by auto
  have N1: "?N \<noteq> 1"
  proof
    assume one: "?N = 1"
    have v: "train_Y = Vector (rows R ! 0)" using Y R one by simp
    have lv: "length (rows R ! 0) = 10" using wf_mat_row[OF R(3), of 0] R one by simp
    from s5 have Y0: "Y0 = Vector (take J (rows R ! 0))" by (simp add: v)
    have "length (take J (rows R ! 0)) \<noteq> ncols S" using lv big one S by simp
    from solve_Theta_Vector_mismatch[OF this] s9 show False by (simp add: Y0)
  qed
  have YM: "train_Y = Matrix R" using Y R N1 by simp
  from s5 have Y0: "Y0 = Matrix (slice_rows R J)" by (auto simp: YM)
  from s9 have s9': "solve_Theta (Matrix (np_T (slice_rows R J))) S reg_param K = Inr Theta"
    by (simp add: Y0)
  from solve_Theta_Matrix_shape[OF s9'] R obtain T
    where T: "Theta = Matrix T" "nrows T = 10" by auto
  from matmul_Matrix_shape[OF s10[unfolded T(1)]] obtain F
    where F: "f_insample = Matrix F" "mat_mul T S = Inr F" "nrows F = nrows T" "ncols F = ncols S"
    by blast
  have F0: "0 < nrows F" using F(3) T(2) by simp
  have Fc: "ncols F = min J (length train_y)" using F(4) S len big by simp
  from train_pred_Matrix[OF F0 Fc] obtain ps
    where ps: "predict (Matrix F) = Inr (Vector ps)" "length ps = ncols F"
      and tp: "train_pred (Matrix F) train_y J
                 = Inr (np_true_divide (correct_count ps (take J train_y)) J)" by blast
  from s12 tp have tr: "tr = Finite (real (correct_count ps train_y) / real J)"
    using J by (simp add: F(1) tk np_true_divide_def)
  have FN: "ncols F = ?N" using F(4) S by simp
  have len_ps: "length ps = ?N" using ps(2) FN by simp
  have lt: "real (correct_count ps train_y) / real J
                 < real (correct_count ps train_y) / real ?N"
    if c: "0 < correct_count ps train_y"
  proof -
    have "correct_count ps train_y \<le> ?N"
      using correct_count_le[of ps train_y] len by simp
    with c have N: "0 < ?N" by linarith
    show ?thesis using c N big by (simp add: frac_less2)
  qed
  have imp: "0 < correct_count ps train_y \<longrightarrow>
               real (correct_count ps train_y) / real J
                 < real (correct_count ps train_y) / real ?N"
    by (rule impI) (rule lt)
  have "\<exists>train_X w S T F ps.
            np_reshape train_raw ?N ((height train_raw)\<^sup>2) = Inr train_X \<and>
            nrows train_X = ?N \<and>
            slice_rows train_X J = train_X \<and> take J train_y = train_y \<and>
            feature_matrix train_X w = Inr S \<and> ncols S = ?N \<and>
            Theta = Matrix T \<and> mat_mul T S = Inr F \<and> ncols F = ?N \<and>
            predict (Matrix F) = Inr (Vector ps) \<and> length ps = ?N \<and>
            tr = Finite (real (correct_count ps train_y) / real J) \<and>
            (0 < correct_count ps train_y \<longrightarrow>
               real (correct_count ps train_y) / real J
                 < real (correct_count ps train_y) / real ?N)"
    by (rule exI[of _ train_X], rule exI[of _ w], rule exI[of _ S], rule exI[of _ T],
        rule exI[of _ F], rule exI[of _ ps])
       (intro conjI s1 X sl tk s7' S T(1) F(2) FN ps(1) len_ps tr imp)
  with N1 show ?thesis by (rule conjI)
qed

theorem batch_size_exceeds_training_set_witness:
  "length (pixels (Images 1 1 [[1], [0 :: real]])) < 5 \<and>
   length [0, 1 :: int] = length (pixels (Images 1 1 [[1], [0 :: real]])) \<and>
   notebook 1 1 2 5 (\<lambda>i. 0) (Images 1 1 [[1], [0]]) [0, 1] (Images 1 1 [[1], [0], [0]]) [0, 1, 1]
     = Inr (Matrix (Mat 1 [[1 / 4], [1 / 4], [0], [0], [0], [0], [0], [0], [0], [0]]),
            Finite (1 / 5), Finite (1 / 10000)) \<and>
   (1 / 5 :: real) < 1 / 2"
  using batch_size_exceeds_training_set[of "Images 1 1 [[1], [0]]" 5 "[0, 1]" 1 1 2 "\<lambda>i. 0"
      "Images 1 1 [[1], [0], [0]]" "[0, 1, 1]"
      "Matrix (Mat 1 [[1 / 4], [1 / 4], [0], [0], [0], [0], [0], [0], [0], [0]])"
      "Finite (1 / 5)" "Finite (1 / 10000)"]
  by (simp add: array_eval notebook_eval small_numerals)

theorem batch_size_exceeds_training_set_counterexample:
  "length (pixels (Images 1 1 [[1 :: real]])) < 5 \<and>
   length [0 :: int] = length (pixels (Images 1 1 [[1 :: real]])) \<and>
   notebook 1 1 2 5 (\<lambda>i. 0) (Images 1 1 [[1]]) [0] (Images 1 1 [[1], [0], [0]]) [0, 1, 1]
     = Inl ValueError"
  by (simp add: array_eval notebook_eval small_numerals)

text \<open>
  The result depends on what the generator emits, which the notebook does not control:
  the same data with two different draws gives two results.
\<close>

lemma notebook_two_draws:
  "notebook 1 1 2 2 (\<lambda>i. 0) (Images 1 1 [[1], [0]]) [0, 1] (Images 1 1 [[1], [0], [0]]) [0, 1, 1]
     = Inr (Matrix (Mat 1 [[1 / 4], [1 / 4], [0], [0], [0], [0], [0], [0], [0], [0]]),
            Finite (1 / 2), Finite (1 / 10000)) \<and>
   notebook 1 1 2 2 (\<lambda>i. pi) (Images 1 1 [[1], [0]]) [0, 1] (Images 1 1 [[1], [0], [0]]) [0, 1, 1]
     = Inr (Matrix (Mat 1 [[- 1 / 4], [1 / 4], [0], [0], [0], [0], [0], [0], [0], [0]]),
            Finite 1, Finite (3 / 10000)) \<and>
   notebook 1 1 2 2 (\<lambda>i. 0) (Images 1 1 [[1], [0]]) [0, 1] (Images 1 1 [[1], [0], [0]]) [0, 1, 1]
     \<noteq> notebook 1 1 2 2 (\<lambda>i. pi) (Images 1 1 [[1], [0]]) [0, 1] (Images 1 1 [[1], [0], [0]]) [0, 1, 1]"
  by (simp add: array_eval notebook_eval small_numerals)

section \<open>Exact arithmetic\<close>

text \<open>
  What follows holds of the model's exact complex arithmetic and not of the float64
  program, whose inverse is rounded and whose inversion can fail where the exact one
  cannot. Nothing above rests on it.
\<close>

subsection \<open>Gauss-Jordan elimination in exact arithmetic\<close>

lemma pivot_row_Some:
  assumes "pivot_row k rs = Some p"
  shows "k \<le> p \<and> p < length rs \<and> rs ! p ! k \<noteq> 0"
proof -
  from assms obtain i where i: "i < length [k..<length rs]"
    and P: "rs ! ([k..<length rs] ! i) ! k \<noteq> 0" and p: "p = [k..<length rs] ! i"
    unfolding pivot_row_def find_Some_iff by blast
  from i have "[k..<length rs] ! i = k + i" by simp
  with i P p show ?thesis by simp
qed

lemma pivot_row_None:
  assumes "pivot_row k rs = None" and "k \<le> p" and "p < length rs"
  shows "rs ! p ! k = 0"
proof -
  from assms(2,3) have "p \<in> set [k..<length rs]" by simp
  with assms(1) show ?thesis unfolding pivot_row_def find_None_iff by blast
qed

lemma swap_nth:
  assumes "k < length rs" "p < length rs" "i < length rs"
  shows "rs[k := rs ! p, p := rs ! k] ! i = (if i = k then rs ! p else if i = p then rs ! k else rs ! i)"
  using assms by (auto simp: nth_list_update)

lemma eliminate_row:
  assumes "k < length rs" "p < length rs" "i < length rs"
  shows "eliminate k p rs ! i =
           (if i = k then map (\<lambda>x. x / (rs ! p ! k)) (rs ! p)
            else map2 (\<lambda>a b. a - (if i = p then rs ! k else rs ! i) ! k * b)
                   (if i = p then rs ! k else rs ! i) (map (\<lambda>x. x / (rs ! p ! k)) (rs ! p)))"
  using assms by (simp add: eliminate_def Let_def swap_nth del: list_update.simps)

lemma eliminate_entry:
  assumes "shaped K rs" "k < K" "p < K" "i < K" "j < 2 * K"
  shows "eliminate k p rs ! i ! j =
           (if i = k then rs ! p ! j / rs ! p ! k
            else (if i = p then rs ! k else rs ! i) ! j
                 - (if i = p then rs ! k else rs ! i) ! k * (rs ! p ! j / rs ! p ! k))"
  using assms by (auto simp: shaped_def eliminate_row)

lemma shaped_eliminate:
  assumes "shaped K rs" "k < K" "p < K"
  shows "shaped K (eliminate k p rs)"
  using assms by (auto simp: shaped_def eliminate_row)

lemma combine_tracked:
  fixes a :: "nat \<Rightarrow> nat \<Rightarrow> 'a::field"
  assumes "u ! j = (\<Sum>l<K. u ! (K + l) * a l j)" and "q ! j = (\<Sum>l<K. q ! (K + l) * a l j)"
  shows "u ! j - c * (q ! j / d) = (\<Sum>l<K. (u ! (K + l) - c * (q ! (K + l) / d)) * a l j)"
proof -
  have "(\<Sum>l<K. (u ! (K + l) - c * (q ! (K + l) / d)) * a l j)
        = (\<Sum>l<K. u ! (K + l) * a l j) - (\<Sum>l<K. c * ((q ! (K + l) * a l j) / d))"
    by (simp add: left_diff_distrib sum_subtractf mult.assoc)
  also have "(\<Sum>l<K. c * ((q ! (K + l) * a l j) / d)) = c * ((\<Sum>l<K. q ! (K + l) * a l j) / d)"
    by (simp add: sum_distrib_left sum_divide_distrib)
  finally show ?thesis using assms by simp
qed

lemma scale_tracked:
  fixes a :: "nat \<Rightarrow> nat \<Rightarrow> 'a::field"
  assumes "q ! j = (\<Sum>l<K. q ! (K + l) * a l j)"
  shows "q ! j / d = (\<Sum>l<K. (q ! (K + l) / d) * a l j)"
  using assms by (simp add: sum_divide_distrib)

lemma tracks_eliminate:
  assumes sh: "shaped K rs" and tr: "tracks K a rs" and k: "k < K" and p: "p < K"
  shows "tracks K a (eliminate k p rs)"
  unfolding tracks_def
proof (intro allI impI)
  fix i j assume i: "i < K" and j: "j < K"
  have j2: "j < 2 * K" using j by simp
  have l2: "K + l < 2 * K" if "l < K" for l using that by simp
  have row: "rs ! i' ! j = (\<Sum>l<K. rs ! i' ! (K + l) * a l j)" if "i' < K" for i'
    using tr that j by (simp add: tracks_def)
  show "eliminate k p rs ! i ! j = (\<Sum>l<K. eliminate k p rs ! i ! (K + l) * a l j)"
  proof (cases "i = k")
    case True
    have e1: "eliminate k p rs ! i ! c = rs ! p ! c / rs ! p ! k" if "c < 2 * K" for c
      using eliminate_entry[OF sh k p i that] True by simp
    have "(\<Sum>l<K. eliminate k p rs ! i ! (K + l) * a l j)
          = (\<Sum>l<K. (rs ! p ! (K + l) / rs ! p ! k) * a l j)"
      by (intro sum.cong refl) (simp only: e1[OF l2] lessThan_iff)
    also have "\<dots> = rs ! p ! j / rs ! p ! k"
      by (rule scale_tracked[where q = "rs ! p" and a = a and K = K and j = j, OF row[OF p], symmetric])
    finally show ?thesis by (simp only: e1[OF j2])
  next
    case False
    define i' where "i' = (if i = p then k else i)"
    have i': "i' < K" using i k by (simp add: i'_def)
    have r: "(if i = p then rs ! k else rs ! i) = rs ! i'" by (simp add: i'_def)
    have e2: "eliminate k p rs ! i ! c = rs ! i' ! c - rs ! i' ! k * (rs ! p ! c / rs ! p ! k)"
      if "c < 2 * K" for c
      using eliminate_entry[OF sh k p i that] False by (simp add: r)
    have "(\<Sum>l<K. eliminate k p rs ! i ! (K + l) * a l j)
          = (\<Sum>l<K. (rs ! i' ! (K + l) - rs ! i' ! k * (rs ! p ! (K + l) / rs ! p ! k)) * a l j)"
      by (intro sum.cong refl) (simp only: e2[OF l2] lessThan_iff)
    also have "\<dots> = rs ! i' ! j - rs ! i' ! k * (rs ! p ! j / rs ! p ! k)"
      by (rule combine_tracked[where u = "rs ! i'" and q = "rs ! p" and a = a and K = K and j = j,
            OF row[OF i'] row[OF p], symmetric])
    finally show ?thesis by (simp only: e2[OF j2])
  qed
qed

lemma reduced_eliminate:
  assumes sh: "shaped K rs" and red: "reduced K k rs" and kp: "k \<le> p" and p: "p < K"
    and pv: "rs ! p ! k \<noteq> 0"
  shows "reduced K (Suc k) (eliminate k p rs)"
  unfolding reduced_def
proof (intro allI impI)
  fix i j assume i: "i < K" and j: "j < Suc k"
  have k: "k < K" using kp p by simp
  have j2: "j < 2 * K" using j k by simp
  define i' where "i' = (if i = p then k else i)"
  have i': "i' < K" using i k by (simp add: i'_def)
  have r: "(if i = p then rs ! k else rs ! i) = rs ! i'" by (simp add: i'_def)
  have ent: "eliminate k p rs ! i ! j =
           (if i = k then rs ! p ! j / rs ! p ! k
            else rs ! i' ! j - rs ! i' ! k * (rs ! p ! j / rs ! p ! k))"
    by (simp add: eliminate_entry[OF sh k p i j2] r)
  show "eliminate k p rs ! i ! j = (if i = j then 1 else 0)"
  proof (cases "j = k")
    case True
    then show ?thesis using ent pv by simp
  next
    case False
    then have jk: "j < k" using j by simp
    have pj: "rs ! p ! j = 0" using red p jk kp by (simp add: reduced_def)
    have "rs ! i' ! j = (if i' = j then 1 else 0)" using red i' jk by (simp add: reduced_def)
    moreover have "(i' = j) = (i = j)" using jk kp by (auto simp: i'_def)
    ultimately show ?thesis using ent pj jk by auto
  qed
qed

lemma keeps_kernel_eliminate:
  assumes sh: "shaped K rs" and kk: "keeps_kernel K a rs" and k: "k < K" and p: "p < K"
    and pv: "rs ! p ! k \<noteq> 0"
  shows "keeps_kernel K a (eliminate k p rs)"
  unfolding keeps_kernel_def
proof (intro allI impI)
  fix x :: "nat \<Rightarrow> 'a" and i0
  assume new: "\<forall>i<K. (\<Sum>j<K. eliminate k p rs ! i ! j * x j) = 0" and i0: "i0 < K"
  define dot where "dot r = (\<Sum>j<K. r ! j * x j)" for r :: "'a list"
  have j2: "j < 2 * K" if "j < K" for j using that by simp
  have dp: "dot (rs ! p) = 0"
  proof -
    have "(\<Sum>j<K. eliminate k p rs ! k ! j * x j) = (\<Sum>j<K. (rs ! p ! j * x j) / rs ! p ! k)"
      by (intro sum.cong refl) (simp add: eliminate_entry[OF sh k p k j2])
    also have "\<dots> = dot (rs ! p) / rs ! p ! k" by (simp add: dot_def sum_divide_distrib)
    finally have "dot (rs ! p) / rs ! p ! k = 0" using new k by simp
    then show ?thesis using pv by simp
  qed
  have other: "dot (if i = p then rs ! k else rs ! i) = 0" if i: "i < K" and ik: "i \<noteq> k" for i
  proof -
    define r where "r = (if i = p then rs ! k else rs ! i)"
    have e: "eliminate k p rs ! i ! j = r ! j - r ! k * (rs ! p ! j / rs ! p ! k)" if "j < K" for j
      using eliminate_entry[OF sh k p i j2[OF that]] ik by (simp add: r_def)
    have "(\<Sum>j<K. eliminate k p rs ! i ! j * x j)
          = (\<Sum>j<K. r ! j * x j - (r ! k / rs ! p ! k) * (rs ! p ! j * x j))"
      by (intro sum.cong refl) (simp add: e left_diff_distrib)
    also have "\<dots> = dot r - (r ! k / rs ! p ! k) * dot (rs ! p)"
      by (simp add: dot_def sum_subtractf sum_distrib_left)
    finally have "dot r = 0" using new i dp by simp
    then show ?thesis by (simp add: r_def)
  qed
  have all_rows: "dot (rs ! i) = 0" if i: "i < K" for i
  proof (cases "i = p")
    case True
    then show ?thesis using dp by simp
  next
    case ip: False
    show ?thesis
    proof (cases "i = k")
      case True
      with ip have "p \<noteq> k" by simp
      from other[OF p this] True show ?thesis by simp
    next
      case False
      from other[OF i False] ip show ?thesis by simp
    qed
  qed
  from kk have "(\<forall>i<K. (\<Sum>j<K. rs ! i ! j * x j) = 0) \<longrightarrow> (\<forall>i<K. (\<Sum>j<K. a i j * x j) = 0)"
    unfolding keeps_kernel_def by (rule spec)
  moreover have "\<forall>i<K. (\<Sum>j<K. rs ! i ! j * x j) = 0" using all_rows by (simp add: dot_def)
  ultimately show "(\<Sum>j<K. a i0 j * x j) = 0" using i0 by blast
qed

lemma stuck_column_kernel:
  fixes rs :: "('a::field) list list"
  assumes red: "reduced K k rs" and k: "k < K" and len: "length rs = K"
    and none: "pivot_row k rs = None"
  shows "\<exists>x. x k = 1 \<and> (\<forall>i<K. (\<Sum>j<K. rs ! i ! j * x j) = 0)"
proof -
  define x where "x j = (if j < k then - (rs ! j ! k) else if j = k then 1 else 0)" for j
  have "(\<Sum>j<K. rs ! i ! j * x j) = 0" if i: "i < K" for i
  proof -
    have summand: "rs ! i ! j * x j
          = (if j = i then (if i < k then - (rs ! i ! k) else 0) else 0)
            + (if j = k then rs ! i ! k else 0)" if j: "j < K" for j
    proof -
      consider "j < k" | "j = k" | "k < j" by linarith
      then show ?thesis
      proof cases
        case 1
        then have "rs ! i ! j = (if i = j then 1 else 0)" using red i by (simp add: reduced_def)
        with 1 show ?thesis by (auto simp: x_def)
      next
        case 2
        then show ?thesis by (auto simp: x_def)
      next
        case 3
        then show ?thesis by (auto simp: x_def)
      qed
    qed
    have "(\<Sum>j<K. rs ! i ! j * x j)
          = (\<Sum>j<K. (if j = i then (if i < k then - (rs ! i ! k) else 0) else 0)
                     + (if j = k then rs ! i ! k else 0))"
      by (intro sum.cong refl) (simp add: summand)
    also have "\<dots> = (if i < k then - (rs ! i ! k) else 0) + rs ! i ! k"
      using i k by (simp add: sum.distrib)
    also have "\<dots> = 0"
    proof (cases "i < k")
      case True
      then show ?thesis by simp
    next
      case False
      then have "rs ! i ! k = 0" using pivot_row_None[OF none, of i] i len by simp
      with False show ?thesis by simp
    qed
    finally show ?thesis .
  qed
  moreover have "x k = 1" by (simp add: x_def)
  ultimately show ?thesis by blast
qed

lemma gj_inv_step:
  assumes "gj_inv K a k rs" and "k < K" and "pivot_row k rs = Some p"
  shows "gj_inv K a (Suc k) (eliminate k p rs)"
proof -
  from assms(1) have sh: "shaped K rs" and tr: "tracks K a rs" and red: "reduced K k rs"
    and kk: "keeps_kernel K a rs" by (simp_all add: gj_inv_def)
  from pivot_row_Some[OF assms(3)] sh have kp: "k \<le> p" and p: "p < K" and pv: "rs ! p ! k \<noteq> 0"
    by (simp_all add: shaped_def)
  show ?thesis unfolding gj_inv_def
    using shaped_eliminate[OF sh assms(2) p] tracks_eliminate[OF sh tr assms(2) p]
      reduced_eliminate[OF sh red kp p pv] keeps_kernel_eliminate[OF sh kk assms(2) p pv]
    by simp
qed

lemma gauss_jordan_Some:
  assumes "gj_inv K a k rs" and "k + m = K" and "gauss_jordan m k rs = Some rs'"
  shows "gj_inv K a K rs'"
  using assms
proof (induction m arbitrary: k rs)
  case 0
  then show ?case by simp
next
  case (Suc m)
  from Suc.prems(2) have k: "k < K" by simp
  from Suc.prems(3) obtain p where p: "pivot_row k rs = Some p"
    and run: "gauss_jordan m (Suc k) (eliminate k p rs) = Some rs'"
    by (auto split: option.splits)
  show ?case
    by (rule Suc.IH[OF gj_inv_step[OF Suc.prems(1) k p] _ run]) (use Suc.prems(2) in simp)
qed

lemma gauss_jordan_None:
  assumes "gj_inv K a k rs" and "k + m = K" and "gauss_jordan m k rs = None"
  shows "\<exists>x k'. k' < K \<and> x k' = 1 \<and> (\<forall>i<K. (\<Sum>j<K. a i j * x j) = 0)"
  using assms
proof (induction m arbitrary: k rs)
  case 0
  then show ?case by simp
next
  case (Suc m)
  from Suc.prems(2) have k: "k < K" by simp
  from Suc.prems(1) have sh: "shaped K rs" and red: "reduced K k rs"
    and kk: "keeps_kernel K a rs" by (simp_all add: gj_inv_def)
  show ?case
  proof (cases "pivot_row k rs")
    case None
    from sh have "length rs = K" by (simp add: shaped_def)
    from stuck_column_kernel[OF red k this None] obtain x
      where x: "x k = 1" "\<forall>i<K. (\<Sum>j<K. rs ! i ! j * x j) = 0" by blast
    from kk x(2) have "\<forall>i<K. (\<Sum>j<K. a i j * x j) = 0" unfolding keeps_kernel_def by blast
    with x(1) k show ?thesis by blast
  next
    case (Some p)
    with Suc.prems(3) have run: "gauss_jordan m (Suc k) (eliminate k p rs) = None" by simp
    show ?thesis
      by (rule Suc.IH[OF gj_inv_step[OF Suc.prems(1) k Some] _ run]) (use Suc.prems(2) in simp)
  qed
qed

lemma augment_row:
  assumes "wf_mat A" "nrows A = K" "ncols A = K" "i < K"
  shows "length (augment A ! i) = 2 * K"
    and "j < K \<Longrightarrow> augment A ! i ! j = entry A i j"
    and "l < K \<Longrightarrow> augment A ! i ! (K + l) = (if i = l then 1 else 0)"
proof -
  have len: "length (rows A ! i) = K" using wf_mat_row[OF assms(1)] assms(2,3,4) by simp
  have row: "augment A ! i = rows A ! i @ map (\<lambda>j. if i = j then 1 else 0) [0..<K]"
    using assms(2,3,4) by (simp add: augment_def)
  show "length (augment A ! i) = 2 * K" by (simp add: row len)
  show "j < K \<Longrightarrow> augment A ! i ! j = entry A i j" by (simp add: row len nth_append entry_def)
  show "l < K \<Longrightarrow> augment A ! i ! (K + l) = (if i = l then 1 else 0)"
    using len by (simp add: row nth_append)
qed

lemma gj_inv_augment:
  fixes A :: "('a::field) mat"
  assumes "wf_mat A" "nrows A = K" "ncols A = K"
  shows "gj_inv K (entry A) 0 (augment A)"
proof -
  note ar = augment_row[OF assms]
  have sh: "shaped K (augment A)"
    using ar(1) assms(2) by (simp add: shaped_def augment_def)
  have tr: "tracks K (entry A) (augment A)"
    unfolding tracks_def
  proof (intro allI impI)
    fix i j assume i: "i < K" and j: "j < K"
    have "(\<Sum>l<K. augment A ! i ! (K + l) * entry A l j)
          = (\<Sum>l<K. if l = i then entry A l j else 0)"
      by (intro sum.cong refl) (auto simp: ar(3)[OF i])
    also have "\<dots> = entry A i j" using i by simp
    finally show "augment A ! i ! j = (\<Sum>l<K. augment A ! i ! (K + l) * entry A l j)"
      using ar(2)[OF i j] by simp
  qed
  have red: "reduced K 0 (augment A)" by (simp add: reduced_def)
  have kk: "keeps_kernel K (entry A) (augment A)"
    unfolding keeps_kernel_def
  proof (intro allI impI)
    fix x :: "nat \<Rightarrow> 'a" and i
    assume h: "\<forall>i<K. (\<Sum>j<K. augment A ! i ! j * x j) = 0" and i: "i < K"
    have "(\<Sum>j<K. entry A i j * x j) = (\<Sum>j<K. augment A ! i ! j * x j)"
      by (intro sum.cong refl) (simp add: ar(2)[OF i])
    with h i show "(\<Sum>j<K. entry A i j * x j) = 0" by simp
  qed
  from sh tr red kk show ?thesis by (simp add: gj_inv_def)
qed

text \<open>
  The matrix returned is a left inverse; an error is LinAlgError and comes with a
  vector of the kernel that is not zero.
\<close>

lemma np_linalg_inv_Inr:
  fixes A :: "('a::field) mat"
  assumes "wf_mat A" "nrows A = K" "ncols A = K" and inv: "np_linalg_inv A = Inr B"
  shows "wf_mat B \<and> nrows B = K \<and> ncols B = K \<and>
         (\<forall>i<K. \<forall>j<K. (\<Sum>l<K. entry B i l * entry A l j) = (if i = j then 1 else 0))"
proof -
  from inv assms(2,3) obtain rs where run: "gauss_jordan K 0 (augment A) = Some rs"
    and B: "B = Mat K (map (drop K) rs)"
    by (auto simp: np_linalg_inv_def split: option.splits)
  have "gj_inv K (entry A) K rs"
    by (rule gauss_jordan_Some[OF gj_inv_augment[OF assms(1-3)] _ run]) simp
  then have sh: "shaped K rs" and tr: "tracks K (entry A) rs" and red: "reduced K K rs"
    by (simp_all add: gj_inv_def)
  from sh have len: "length rs = K" and rowlen: "\<And>i. i < K \<Longrightarrow> length (rs ! i) = 2 * K"
    by (simp_all add: shaped_def)
  have wf: "wf_mat B" using len rowlen by (simp add: B wf_mat_def list_all_length)
  have nr: "nrows B = K" using len by (simp add: B nrows_def)
  have nc: "ncols B = K" by (simp add: B)
  have ent: "entry B i l = rs ! i ! (K + l)" if "i < K" "l < K" for i l
    using that len rowlen[OF that(1)] by (simp add: B entry_def)
  have "(\<Sum>l<K. entry B i l * entry A l j) = (if i = j then 1 else 0)" if i: "i < K" and j: "j < K" for i j
  proof -
    have "(\<Sum>l<K. entry B i l * entry A l j) = (\<Sum>l<K. rs ! i ! (K + l) * entry A l j)"
      by (intro sum.cong refl) (simp add: ent[OF i])
    also have "\<dots> = rs ! i ! j" using tr i j by (simp add: tracks_def)
    also have "\<dots> = (if i = j then 1 else 0)" using red i j by (simp add: reduced_def)
    finally show ?thesis .
  qed
  with wf nr nc show ?thesis by blast
qed

lemma np_linalg_inv_Inl:
  fixes A :: "('a::field) mat"
  assumes "wf_mat A" "nrows A = K" "ncols A = K" and inv: "np_linalg_inv A = Inl e"
  shows "e = LinAlgError \<and> (\<exists>x k. k < K \<and> x k = 1 \<and> (\<forall>i<K. (\<Sum>j<K. entry A i j * x j) = 0))"
proof -
  from inv assms(2,3) have run: "gauss_jordan K 0 (augment A) = None" and e: "e = LinAlgError"
    by (auto simp: np_linalg_inv_def split: option.splits)
  have "\<exists>x k'. k' < K \<and> x k' = 1 \<and> (\<forall>i<K. (\<Sum>j<K. entry A i j * x j) = 0)"
    by (rule gauss_jordan_None[OF gj_inv_augment[OF assms(1-3)] _ run]) simp
  with e show ?thesis by blast
qed

lemma sum_assoc_inverse:
  fixes y :: "nat \<Rightarrow> 'a::field"
  assumes "\<forall>l<K. \<forall>k<K. (\<Sum>j<K. b l j * a j k) = (if l = k then 1 else 0)" and "k < K"
  shows "(\<Sum>j<K. (\<Sum>l<K. y l * b l j) * a j k) = y k"
proof -
  have "(\<Sum>j<K. (\<Sum>l<K. y l * b l j) * a j k) = (\<Sum>j<K. \<Sum>l<K. y l * (b l j * a j k))"
    by (simp add: sum_distrib_right mult.assoc)
  also have "\<dots> = (\<Sum>l<K. \<Sum>j<K. y l * (b l j * a j k))" by (rule sum.swap)
  also have "\<dots> = (\<Sum>l<K. y l * (\<Sum>j<K. b l j * a j k))" by (simp add: sum_distrib_left)
  also have "\<dots> = (\<Sum>l<K. y l * (if l = k then 1 else 0))"
    using assms by (intro sum.cong refl) simp
  also have "\<dots> = (\<Sum>l<K. if l = k then y l else 0)"
    by (intro sum.cong refl) simp
  also have "\<dots> = y k" using assms(2) by simp
  finally show ?thesis .
qed

lemma left_inverse_is_right_inverse:
  fixes a :: "nat \<Rightarrow> nat \<Rightarrow> 'a::field"
  assumes left: "\<forall>i<K. \<forall>j<K. (\<Sum>l<K. b i l * a l j) = (if i = j then 1 else 0)"
    and right: "\<forall>i<K. \<forall>j<K. (\<Sum>l<K. a i l * c l j) = (if i = j then 1 else 0)"
    and "i < K" "j < K"
  shows "b i j = c i j"
proof -
  have "c i j = (\<Sum>m<K. (if i = m then 1 else 0) * c m j)"
    using assms(3) by (simp add: if_distrib[of "\<lambda>x. x * _"] cong: if_cong)
  also have "\<dots> = (\<Sum>m<K. (\<Sum>l<K. b i l * a l m) * c m j)"
    using left assms(3) by (intro sum.cong refl) simp
  also have "\<dots> = (\<Sum>m<K. \<Sum>l<K. b i l * (a l m * c m j))"
    by (simp add: sum_distrib_right mult.assoc)
  also have "\<dots> = (\<Sum>l<K. \<Sum>m<K. b i l * (a l m * c m j))" by (rule sum.swap)
  also have "\<dots> = (\<Sum>l<K. b i l * (\<Sum>m<K. a l m * c m j))" by (simp add: sum_distrib_left)
  also have "\<dots> = (\<Sum>l<K. b i l * (if l = j then 1 else 0))"
    using right assms(4) by (intro sum.cong refl) simp
  also have "\<dots> = (\<Sum>l<K. if l = j then b i l else 0)" by (intro sum.cong refl) simp
  also have "\<dots> = b i j" using assms(4) by simp
  finally show ?thesis by simp
qed

subsection \<open>The Ridge Solver in exact arithmetic\<close>

text \<open>
  In exact arithmetic and for \<open>\<lambda> > 0\<close> the matrix
  \<open>S \<cdot> S\<^sup>H + \<lambda> \<cdot> I\<close> has a two-sided inverse, which the elimination finds, and the
  weight matrix \<open>\<Theta> = (Y \<cdot> S\<^sup>H) \<cdot> (S \<cdot> S\<^sup>H + \<lambda> \<cdot> I)\<^sup>-\<^sup>1\<close> satisfies the normal equations.
\<close>

lemma gram_entry_hermitian: "gram_entry sf n lam j i = cnj (gram_entry sf n lam i j)"
  by (simp add: gram_entry_def mult.commute)

lemma gram_entry_apply:
  assumes "i < K"
  shows "(\<Sum>j<K. gram_entry sf n lam i j * x j)
         = (\<Sum>m<n. sf i m * (\<Sum>j<K. cnj (sf j m) * x j)) + complex_of_real lam * x i"
proof -
  have "(\<Sum>j<K. gram_entry sf n lam i j * x j)
        = (\<Sum>j<K. (\<Sum>m<n. sf i m * (cnj (sf j m) * x j)) + (if j = i then complex_of_real lam * x j else 0))"
    by (intro sum.cong refl) (auto simp: gram_entry_def distrib_right sum_distrib_right mult.assoc)
  also have "\<dots> = (\<Sum>j<K. \<Sum>m<n. sf i m * (cnj (sf j m) * x j)) + complex_of_real lam * x i"
    using assms by (simp add: sum.distrib)
  also have "(\<Sum>j<K. \<Sum>m<n. sf i m * (cnj (sf j m) * x j))
             = (\<Sum>m<n. \<Sum>j<K. sf i m * (cnj (sf j m) * x j))" by (rule sum.swap)
  also have "\<dots> = (\<Sum>m<n. sf i m * (\<Sum>j<K. cnj (sf j m) * x j))"
    by (simp add: sum_distrib_left)
  finally show ?thesis .
qed

lemma cnj_mult_self: "cnj z * z = complex_of_real ((cmod z)\<^sup>2)"
  by (subst complex_norm_square) (rule mult.commute)

lemma gram_entry_nonsingular:
  assumes lam: "0 < lam"
    and ker: "\<forall>i<K. (\<Sum>j<K. gram_entry sf n lam i j * x j) = 0"
  shows "\<forall>j<K. x j = 0"
proof -
  define y where "y m = (\<Sum>j<K. cnj (sf j m) * x j)" for m
  have row: "(\<Sum>m<n. sf i m * y m) + complex_of_real lam * x i = 0" if "i < K" for i
    using ker that gram_entry_apply[OF that, of sf n lam x] by (simp add: y_def)
  have cy: "cnj (y m) = (\<Sum>i<K. cnj (x i) * sf i m)" for m
    by (simp add: y_def mult.commute)
  have "0 = (\<Sum>i<K. cnj (x i) * ((\<Sum>m<n. sf i m * y m) + complex_of_real lam * x i))"
    using row by simp
  also have "\<dots> = (\<Sum>i<K. (\<Sum>m<n. cnj (x i) * sf i m * y m)
                          + complex_of_real lam * (cnj (x i) * x i))"
    by (intro sum.cong refl) (simp add: distrib_left sum_distrib_left mult.assoc mult.left_commute)
  also have "\<dots> = (\<Sum>i<K. \<Sum>m<n. cnj (x i) * sf i m * y m)
                   + complex_of_real lam * (\<Sum>i<K. cnj (x i) * x i)"
    by (simp only: sum.distrib sum_distrib_left)
  also have "(\<Sum>i<K. \<Sum>m<n. cnj (x i) * sf i m * y m) = (\<Sum>m<n. \<Sum>i<K. cnj (x i) * sf i m * y m)"
    by (rule sum.swap)
  also have "\<dots> = (\<Sum>m<n. cnj (y m) * y m)"
    by (simp only: cy sum_distrib_right)
  also have "\<dots> = complex_of_real (\<Sum>m<n. (cmod (y m))\<^sup>2)"
    by (simp only: cnj_mult_self of_real_sum)
  also have "(\<Sum>i<K. cnj (x i) * x i) = complex_of_real (\<Sum>i<K. (cmod (x i))\<^sup>2)"
    by (simp only: cnj_mult_self of_real_sum)
  finally have "complex_of_real ((\<Sum>m<n. (cmod (y m))\<^sup>2) + lam * (\<Sum>i<K. (cmod (x i))\<^sup>2)) = 0"
    by (simp only: of_real_add of_real_mult)
  then have eq: "(\<Sum>m<n. (cmod (y m))\<^sup>2) + lam * (\<Sum>i<K. (cmod (x i))\<^sup>2) = 0"
    by (simp only: of_real_eq_0_iff)
  have ny: "0 \<le> (\<Sum>m<n. (cmod (y m))\<^sup>2)" by (intro sum_nonneg) simp
  have nx: "0 \<le> (\<Sum>i<K. (cmod (x i))\<^sup>2)" by (intro sum_nonneg) simp
  have "lam * (\<Sum>i<K. (cmod (x i))\<^sup>2) \<le> 0" using eq ny by linarith
  then have "(\<Sum>i<K. (cmod (x i))\<^sup>2) \<le> 0" using lam by (simp add: mult_le_0_iff)
  with nx have "(\<Sum>i<K. (cmod (x i))\<^sup>2) = 0" by simp
  then have "\<forall>i\<in>{..<K}. (cmod (x i))\<^sup>2 = 0"
    by (subst (asm) sum_nonneg_eq_0_iff) simp_all
  then show ?thesis by simp
qed

lemma hermitian_left_inverse_two_sided:
  fixes a b :: "nat \<Rightarrow> nat \<Rightarrow> complex"
  assumes herm: "\<forall>i<K. \<forall>j<K. a j i = cnj (a i j)"
    and left: "\<forall>i<K. \<forall>j<K. (\<Sum>l<K. b i l * a l j) = (if i = j then 1 else 0)"
    and "i < K" "j < K"
  shows "(\<Sum>l<K. a i l * b l j) = (if i = j then 1 else 0)"
proof -
  define c where "c l i = cnj (b i l)" for l i
  have right: "\<forall>i<K. \<forall>j<K. (\<Sum>l<K. a i l * c l j) = (if i = j then 1 else 0)"
  proof (intro allI impI)
    fix i j assume i: "i < K" and j: "j < K"
    have ail: "a i l = cnj (a l i)" if "l < K" for l using herm i that by blast
    have "(\<Sum>l<K. a i l * c l j) = (\<Sum>l<K. cnj (b j l * a l i))"
      by (intro sum.cong refl) (simp add: c_def ail mult.commute)
    also have "\<dots> = cnj (\<Sum>l<K. b j l * a l i)" by simp
    also have "\<dots> = (if i = j then 1 else 0)" using left i j by auto
    finally show "(\<Sum>l<K. a i l * c l j) = (if i = j then 1 else 0)" .
  qed
  have "b l j = c l j" if "l < K" for l
    by (rule left_inverse_is_right_inverse[OF left right that assms(4)])
  then have "(\<Sum>l<K. a i l * b l j) = (\<Sum>l<K. a i l * c l j)"
    by (intro sum.cong refl) simp
  with right assms(3,4) show ?thesis by simp
qed

lemma gram_reg_inverse:
  assumes K: "nrows S = K" and lam: "0 < lam"
  shows "\<exists>Ainv. np_linalg_inv (gram_reg S lam) = Inr Ainv \<and> wf_mat Ainv \<and>
           nrows Ainv = K \<and> ncols Ainv = K \<and>
           (\<forall>i<K. \<forall>j<K. (\<Sum>l<K. entry Ainv i l * entry (gram_reg S lam) l j) = (if i = j then 1 else 0)) \<and>
           (\<forall>i<K. \<forall>j<K. (\<Sum>l<K. entry (gram_reg S lam) i l * entry Ainv l j) = (if i = j then 1 else 0))"
proof -
  let ?A = "gram_reg S lam"
  have shapeA: "wf_mat ?A" "nrows ?A = K" "ncols ?A = K" using K by simp_all
  have entA: "entry ?A i j = gram_entry (entry S) (ncols S) lam i j" if "i < K" "j < K" for i j
    using that K by (simp add: entry_gram_reg)
  obtain Ainv where inv: "np_linalg_inv ?A = Inr Ainv"
  proof (cases "np_linalg_inv ?A")
    case (Inl e)
    from np_linalg_inv_Inl[OF shapeA Inl] obtain x k
      where k: "k < K" and xk: "x k = 1" and ker: "\<forall>i<K. (\<Sum>j<K. entry ?A i j * x j) = 0"
      by blast
    have "\<forall>i<K. (\<Sum>j<K. gram_entry (entry S) (ncols S) lam i j * x j) = 0"
    proof (intro allI impI)
      fix i assume i: "i < K"
      have "(\<Sum>j<K. gram_entry (entry S) (ncols S) lam i j * x j) = (\<Sum>j<K. entry ?A i j * x j)"
        by (intro sum.cong refl) (simp add: entA[OF i])
      with ker i show "(\<Sum>j<K. gram_entry (entry S) (ncols S) lam i j * x j) = 0" by simp
    qed
    from gram_entry_nonsingular[OF lam this] k have "x k = 0" by blast
    with xk show ?thesis by simp
  next
    case (Inr B)
    then show ?thesis by (rule that)
  qed
  from np_linalg_inv_Inr[OF shapeA inv] have shapeB: "wf_mat Ainv" "nrows Ainv = K" "ncols Ainv = K"
    and left: "\<forall>i<K. \<forall>j<K. (\<Sum>l<K. entry Ainv i l * entry ?A l j) = (if i = j then 1 else 0)"
    by blast+
  have herm: "\<forall>i<K. \<forall>j<K. entry ?A j i = cnj (entry ?A i j)"
  proof (intro allI impI)
    fix i j assume ij: "i < K" "j < K"
    show "entry ?A j i = cnj (entry ?A i j)"
      unfolding entA[OF ij] entA[OF ij(2,1)] by (rule gram_entry_hermitian)
  qed
  have right: "\<forall>i<K. \<forall>j<K. (\<Sum>l<K. entry ?A i l * entry Ainv l j) = (if i = j then 1 else 0)"
    using hermitian_left_inverse_two_sided[OF herm left] by blast
  from inv shapeB left right show ?thesis by blast
qed

lemma solve_with_left_inverse:
  fixes Ainv A Y :: "complex mat"
  assumes shapeA: "nrows A = K" "ncols A = K"
    and shapeB: "wf_mat Ainv" "nrows Ainv = K" "ncols Ainv = K"
    and shapeY: "wf_mat Y" "ncols Y = K"
    and left: "\<forall>i<K. \<forall>j<K. (\<Sum>l<K. entry Ainv i l * entry A l j) = (if i = j then 1 else 0)"
  shows "\<exists>Theta. mat_mul Y Ainv = Inr Theta \<and> wf_mat Theta \<and> nrows Theta = nrows Y \<and>
           ncols Theta = K \<and> mat_mul Theta A = Inr Y"
proof -
  define Theta where "Theta = mk_mat (nrows Y) K (\<lambda>i j. \<Sum>l<K. entry Y i l * entry Ainv l j)"
  have T: "mat_mul Y Ainv = Inr Theta"
    using shapeB shapeY by (simp add: mat_mul_def Theta_def)
  have shapeT: "wf_mat Theta" "nrows Theta = nrows Y" "ncols Theta = K"
    by (simp_all add: Theta_def)
  have "mat_mul Theta A = Inr Y"
  proof (rule mat_mul_InrI)
    show "ncols Theta = nrows A" using shapeT shapeA by simp
    show "wf_mat Y" by (rule shapeY)
    show "nrows Y = nrows Theta" using shapeT by simp
    show "ncols Y = ncols A" using shapeY shapeA by simp
  next
    fix i k assume i: "i < nrows Theta" and k: "k < ncols A"
    have i': "i < nrows Y" using i shapeT by simp
    have k': "k < K" using k shapeA by simp
    have "(\<Sum>j<K. entry Theta i j * entry A j k)
          = (\<Sum>j<K. (\<Sum>l<K. entry Y i l * entry Ainv l j) * entry A j k)"
      by (intro sum.cong refl) (simp add: Theta_def i')
    also have "\<dots> = entry Y i k"
      by (rule sum_assoc_inverse[where b = "entry Ainv" and a = "entry A" and y = "entry Y i", OF left k'])
    finally show "entry Y i k = (\<Sum>j<ncols Theta. entry Theta i j * entry A j k)"
      using shapeT by simp
  qed
  with T shapeT show ?thesis by blast
qed

lemma solve_Theta_exact:
  assumes "wf_mat S" and "nrows S = K" and "wf_mat Y" and "ncols Y = ncols S" and "0 < reg_param"
  shows "\<exists>Theta Ainv.
           solve_Theta (Matrix Y) S reg_param K = Inr (Matrix Theta) \<and>
           wf_mat Theta \<and> nrows Theta = nrows Y \<and> ncols Theta = K \<and>
           mat_mul Ainv (gram_reg S reg_param) = Inr (np_eye K) \<and>
           mat_mul (gram_reg S reg_param) Ainv = Inr (np_eye K) \<and>
           mat_mul (label_corr Y S) Ainv = Inr Theta \<and>
           mat_mul Theta (gram_reg S reg_param) = Inr (label_corr Y S)"
proof -
  let ?A = "gram_reg S reg_param"
  let ?YS = "label_corr Y S"
  from gram_reg_inverse[OF assms(2,5)] obtain Ainv
    where inv: "np_linalg_inv ?A = Inr Ainv"
      and shapeB: "wf_mat Ainv" "nrows Ainv = K" "ncols Ainv = K"
      and left: "\<forall>i<K. \<forall>j<K. (\<Sum>l<K. entry Ainv i l * entry ?A l j) = (if i = j then 1 else 0)"
      and right: "\<forall>i<K. \<forall>j<K. (\<Sum>l<K. entry ?A i l * entry Ainv l j) = (if i = j then 1 else 0)"
    by blast
  have shapeA: "nrows ?A = K" "ncols ?A = K" using assms(2) by simp_all
  have shapeY: "wf_mat ?YS" "ncols ?YS = K" using assms(2) by simp_all
  from solve_with_left_inverse[OF shapeA shapeB shapeY left] obtain Theta
    where T: "mat_mul ?YS Ainv = Inr Theta"
      and shapeT: "wf_mat Theta" "nrows Theta = nrows ?YS" "ncols Theta = K"
      and normal: "mat_mul Theta ?A = Inr ?YS" by blast
  have run: "solve_Theta (Matrix Y) S reg_param K = Inr (Matrix Theta)"
    unfolding solve_Theta_eq[OF assms(1-4)] inv
    by (simp add: and_then_def T)
  have BA: "mat_mul Ainv ?A = Inr (np_eye K)"
    by (rule mat_mul_InrI) (use shapeA shapeB left in simp_all)
  have AB: "mat_mul ?A Ainv = Inr (np_eye K)"
    by (rule mat_mul_InrI) (use shapeA shapeB right in simp_all)
  have nT: "nrows Theta = nrows Y" using shapeT by simp
  from run shapeT(1) nT shapeT(3) BA AB T normal show ?thesis by blast
qed

end
